theory Spec2Isabelle
  imports
    Main
    "HOL-Library.Sublist"
    "HOL-Library.List_Lexorder"
    "HOL-Library.Product_Lexorder"
begin

section \<open>JavaScript strings\<close>

text \<open>
  A JavaScript string is a sequence of UTF-16 code units; \<^verbatim>\<open>length\<close>, \<^verbatim>\<open>indexOf\<close>,
  \<^verbatim>\<open>includes\<close> and \<^verbatim>\<open>slice\<close> all count code units. A code unit is modelled by its
  number. \<open>str\<close> turns an Isabelle string literal into code units, for readable examples.
\<close>

type_synonym jsstring = "nat list"

definition str :: "string \<Rightarrow> jsstring" where
  "str cs = map of_char cs"

text \<open>
  The code units matched by the regular expression class \<^verbatim>\<open>\s\<close> and stripped by
  \<^verbatim>\<open>trim()\<close> (ECMAScript WhiteSpace and LineTerminator): U+0009..U+000D, U+0020, U+00A0,
  U+1680, U+2000..U+200A, U+2028, U+2029, U+202F, U+205F, U+3000, U+FEFF.
\<close>

definition isWhiteSpace :: "nat \<Rightarrow> bool" where
  "isWhiteSpace c =
     (c \<in> {9, 10, 11, 12, 13, 32, 160, 5760, 8232, 8233, 8239, 8287, 12288, 65279}
      \<or> (8192 \<le> c \<and> c \<le> 8202))"

text \<open>\<^verbatim>\<open>s.trim()\<close>\<close>

definition trim :: "jsstring \<Rightarrow> jsstring" where
  "trim s = rev (dropWhile isWhiteSpace (rev (dropWhile isWhiteSpace s)))"

text \<open>
  \<^verbatim>\<open>s.toLowerCase()\<close> is the host's Unicode lower-casing. It is a parameter
  \<open>toLowerCase\<close> of every function below that calls it, and nothing is assumed of it.
  \<open>toLowerCase_latin\<close> is what it computes on strings of Basic Latin code units
  (A..Z, 65..90, go to a..z; the rest of Basic Latin stays); it stands for the host in the
  examples, which are written in Basic Latin.
\<close>

definition toLowerUnit :: "nat \<Rightarrow> nat" where
  "toLowerUnit c = (if 65 \<le> c \<and> c \<le> 90 then c + 32 else c)"

definition toLowerCase_latin :: "jsstring \<Rightarrow> jsstring" where
  "toLowerCase_latin s = map toLowerUnit s"

text \<open>
  \<^verbatim>\<open>text.indexOf(query)\<close>: the least offset at which \<open>query\<close> starts in \<open>text\<close>;
  \<open>None\<close> stands for the result -1.
\<close>

fun indexOf :: "jsstring \<Rightarrow> jsstring \<Rightarrow> nat option" where
  "indexOf [] q = (if q = [] then Some 0 else None)"
| "indexOf (c # cs) q =
     (if prefix q (c # cs) then Some 0 else map_option Suc (indexOf cs q))"

text \<open>\<^verbatim>\<open>text.includes(query)\<close>\<close>

fun str_includes :: "jsstring \<Rightarrow> jsstring \<Rightarrow> bool" where
  "str_includes [] q = (q = [])"
| "str_includes (c # cs) q = (prefix q (c # cs) \<or> str_includes cs q)"

text \<open>\<^verbatim>\<open>text.slice(start, end)\<close> for \<open>0 \<le> start\<close> and \<open>0 \<le> end\<close>.\<close>

definition slice :: "jsstring \<Rightarrow> nat \<Rightarrow> nat \<Rightarrow> jsstring" where
  "slice text start end = take (end - start) (drop start text)"

text \<open>
  \<^verbatim>\<open>s.replace(/\s+/g, " ")\<close>: every maximal run of white space becomes one space (32).
\<close>

function collapseWhitespace :: "jsstring \<Rightarrow> jsstring" where
  "collapseWhitespace [] = []"
| "collapseWhitespace (c # cs) =
     (if isWhiteSpace c then 32 # collapseWhitespace (dropWhile isWhiteSpace cs)
      else c # collapseWhitespace cs)"
  by pat_completeness auto
termination
  by (relation "measure length") (auto simp: length_dropWhile_le less_Suc_eq_le)

section \<open>The content index\<close>

text \<open>
  \<^verbatim>\<open>TFile\<close> as the index reads it: \<^verbatim>\<open>file.path\<close>, \<^verbatim>\<open>file.extension\<close> and
  \<^verbatim>\<open>file.stat?.size\<close>. \<open>stat_size\<close> is \<open>None\<close> when \<^verbatim>\<open>typeof file.stat?.size\<close> is not
  \<^verbatim>\<open>"number"\<close>.
\<close>

record TFile =
  path :: jsstring
  extension :: jsstring
  stat_size :: "nat option"

text \<open>The fields of \<^verbatim>\<open>class ContentIndex\<close> that change: the map and the build flag.\<close>

record ContentIndex =
  textByPath :: "jsstring \<rightharpoonup> jsstring"
  building :: bool

definition newContentIndex :: ContentIndex where
  "newContentIndex = \<lparr>textByPath = Map.empty, building = False\<rparr>"

definition maxFileBytes :: nat where
  "maxFileBytes = 1000000"

definition indexExtensions :: "jsstring set" where
  "indexExtensions = {str ''md'', str ''txt'', str ''canvas''}"

text \<open>A rejected \<^verbatim>\<open>vault.cachedRead(file)\<close>.\<close>

datatype error = ReadFailed

text \<open>
  \<^verbatim>\<open>indexFileIfEligible(file)\<close>. The vault's \<^verbatim>\<open>cachedRead\<close> is a parameter: \<open>Inl\<close> is a
  rejected read, \<open>Inr raw\<close> the text. The result is the index after the call and the
  error the call raises to its caller, if any. Here the call is taken as one step; the
  section on pending reads has the call in its two parts, before and after the read.
\<close>

definition indexFileIfEligible ::
  "(jsstring \<Rightarrow> jsstring) \<Rightarrow> (TFile \<Rightarrow> error + jsstring) \<Rightarrow> TFile \<Rightarrow> ContentIndex
     \<Rightarrow> ContentIndex \<times> error option" where
  "indexFileIfEligible toLowerCase cachedRead file s =
     (if extension file \<notin> indexExtensions
      then (s\<lparr>textByPath := (textByPath s)(path file := None)\<rparr>, None)
      else if (case stat_size file of Some n \<Rightarrow> n > maxFileBytes | None \<Rightarrow> False)
      then (s\<lparr>textByPath := (textByPath s)(path file := None)\<rparr>, None)
      else (case cachedRead file of
              Inr raw \<Rightarrow> (s\<lparr>textByPath := (textByPath s)(path file \<mapsto> toLowerCase raw)\<rparr>, None)
            | Inl e \<Rightarrow> (s\<lparr>textByPath := (textByPath s)(path file := None)\<rparr>, None)))"

text \<open>\<^verbatim>\<open>remove(file)\<close>\<close>

definition remove_file :: "TFile \<Rightarrow> ContentIndex \<Rightarrow> ContentIndex" where
  "remove_file file s = s\<lparr>textByPath := (textByPath s)(path file := None)\<rparr>"

text \<open>\<^verbatim>\<open>rename(oldPath, file)\<close>\<close>

definition rename :: "jsstring \<Rightarrow> TFile \<Rightarrow> ContentIndex \<Rightarrow> ContentIndex" where
  "rename oldPath file s =
     (case textByPath s oldPath of
        Some v \<Rightarrow> s\<lparr>textByPath := ((textByPath s)(oldPath := None))(path file \<mapsto> v)\<rparr>
      | None \<Rightarrow> s)"

text \<open>
  \<^verbatim>\<open>findSnippet(path, query)\<close>. The guard \<^verbatim>\<open>if (!text) return null\<close> is taken by a
  missing entry and by an entry whose text is the empty string. The marker is the
  code unit U+2026 (8230) with a space.
\<close>

definition findSnippet :: "ContentIndex \<Rightarrow> jsstring \<Rightarrow> jsstring \<Rightarrow> (jsstring \<times> nat) option" where
  "findSnippet s p query =
     (case textByPath s p of
        None \<Rightarrow> None
      | Some text \<Rightarrow>
          if text = [] then None
          else (case indexOf text query of
                  None \<Rightarrow> None
                | Some idx \<Rightarrow>
                    let start = nat (max 0 (int idx - 40));
                        end = min (length text) (idx + length query + 60);
                        snippet = trim (collapseWhitespace (slice text start end));
                        snippet = (if start > 0 then [8230, 32] @ snippet else snippet);
                        snippet = (if end < length text then snippet @ [32, 8230] else snippet)
                    in Some (snippet, idx)))"

text \<open>\<^verbatim>\<open>contains(path, query)\<close>: \<^verbatim>\<open>!!text && text.includes(query)\<close>.\<close>

definition contains :: "ContentIndex \<Rightarrow> jsstring \<Rightarrow> jsstring \<Rightarrow> bool" where
  "contains s p query =
     (case textByPath s p of
        None \<Rightarrow> False
      | Some text \<Rightarrow> text \<noteq> [] \<and> str_includes text query)"

text \<open>
  \<^verbatim>\<open>buildInitialIndex()\<close>, run without interleaving. \<open>files\<close> is what
  \<^verbatim>\<open>vault.getFiles()\<close> returns. The loop stops at the first error a call raises; the
  \<^verbatim>\<open>finally\<close> block clears the flag on both exits.
\<close>

fun buildLoop ::
  "(jsstring \<Rightarrow> jsstring) \<Rightarrow> (TFile \<Rightarrow> error + jsstring) \<Rightarrow> TFile list \<Rightarrow> ContentIndex
     \<Rightarrow> ContentIndex \<times> error option" where
  "buildLoop toLowerCase cachedRead [] s = (s, None)"
| "buildLoop toLowerCase cachedRead (f # fs) s =
     (case indexFileIfEligible toLowerCase cachedRead f s of
        (s', Some e) \<Rightarrow> (s', Some e)
      | (s', None) \<Rightarrow> buildLoop toLowerCase cachedRead fs s')"

definition buildInitialIndex ::
  "(jsstring \<Rightarrow> jsstring) \<Rightarrow> (TFile \<Rightarrow> error + jsstring) \<Rightarrow> TFile list \<Rightarrow> ContentIndex
     \<Rightarrow> ContentIndex \<times> error option" where
  "buildInitialIndex toLowerCase cachedRead files s =
     (if building s then (s, None)
      else (case buildLoop toLowerCase cachedRead files (s\<lparr>building := True\<rparr>) of
              (s', err) \<Rightarrow> (s'\<lparr>building := False\<rparr>, err)))"

section \<open>Vault events\<close>

text \<open>
  The handlers registered in \<^verbatim>\<open>FileSearchPlugin.onload\<close> for the vault's
  \<^verbatim>\<open>modify\<close>, \<^verbatim>\<open>create\<close>, \<^verbatim>\<open>delete\<close> and \<^verbatim>\<open>rename\<close> events, for a file that is a
  \<^verbatim>\<open>TFile\<close> (other files are ignored by the handlers), and one iteration of the build
  loop on a file (\<open>Visit\<close>). An event that reads the file carries what
  \<^verbatim>\<open>cachedRead\<close> answers; here the call of \<^verbatim>\<open>indexFileIfEligible\<close> that the handler
  makes runs to its end before the next event (the interleaved runs are in the section on
  pending reads below).
\<close>

datatype event =
    Visit TFile "error + jsstring"
  | Create TFile "error + jsstring"
  | Modify TFile "error + jsstring"
  | Delete TFile
  | Rename TFile jsstring

fun applyEvent :: "(jsstring \<Rightarrow> jsstring) \<Rightarrow> event \<Rightarrow> ContentIndex \<Rightarrow> ContentIndex" where
  "applyEvent toLowerCase (Visit file r) s = fst (indexFileIfEligible toLowerCase (\<lambda>_. r) file s)"
| "applyEvent toLowerCase (Create file r) s = fst (indexFileIfEligible toLowerCase (\<lambda>_. r) file s)"
| "applyEvent toLowerCase (Modify file r) s = fst (indexFileIfEligible toLowerCase (\<lambda>_. r) file s)"
| "applyEvent toLowerCase (Delete file) s = remove_file file s"
| "applyEvent toLowerCase (Rename file oldPath) s = rename oldPath file s"

text \<open>
  What an observation of a file finds, in the words of the specification: the extension
  is allowed, the size is not a number above the limit, and the text was read.
\<close>

definition foundIndexable :: "TFile \<Rightarrow> error + jsstring \<Rightarrow> bool" where
  "foundIndexable file r =
     (extension file \<in> indexExtensions
      \<and> (case stat_size file of Some n \<Rightarrow> n \<le> maxFileBytes | None \<Rightarrow> True)
      \<and> (case r of Inr raw \<Rightarrow> True | Inl e \<Rightarrow> False))"

section \<open>The search modal\<close>

datatype MatchIn = InPath | InContent

text \<open>\<^verbatim>\<open>type SearchResult\<close>; the field \<^verbatim>\<open>file\<close> is \<open>res_file\<close> here.\<close>

record SearchResult =
  res_file :: TFile
  isOpen :: bool
  isActive :: bool
  matchIn :: MatchIn
  snippet :: "jsstring option"

text \<open>
  The fields of \<^verbatim>\<open>FileSearchModal\<close> that \<^verbatim>\<open>getSuggestions\<close> reads. \<open>index\<close> is the
  state of the shared \<^verbatim>\<open>ContentIndex\<close> at the time of the query.
\<close>

record FileSearchModal =
  allFiles :: "TFile list"
  openFilePaths :: "jsstring set"
  activeFilePath :: "jsstring option"
  index :: ContentIndex

text \<open>
  The body of the loop over \<^verbatim>\<open>allFiles\<close> in \<^verbatim>\<open>getSuggestions\<close>, for the normalised
  query \<open>q\<close>: \<open>None\<close> is \<^verbatim>\<open>continue\<close>, \<open>Some\<close> the result pushed.
\<close>

definition suggestion ::
  "(jsstring \<Rightarrow> jsstring) \<Rightarrow> FileSearchModal \<Rightarrow> jsstring \<Rightarrow> TFile \<Rightarrow> SearchResult option" where
  "suggestion toLowerCase m q f =
     (let searchContent = (length q \<ge> 3);
          isActive = (activeFilePath m = Some (path f));
          isOpen = (path f \<in> openFilePaths m);
          pathLc = toLowerCase (path f);
          pathHit = str_includes pathLc q;
          sn = (if \<not> pathHit \<and> searchContent then findSnippet (index m) (path f) q else None);
          contentHit = (sn \<noteq> None)
      in if \<not> pathHit \<and> \<not> contentHit then None
         else Some \<lparr>res_file = f, isOpen = isOpen, isActive = isActive,
                     matchIn = (if pathHit then InPath else InContent),
                     snippet = map_option fst sn\<rparr>)"

definition candidates ::
  "(jsstring \<Rightarrow> jsstring) \<Rightarrow> FileSearchModal \<Rightarrow> jsstring \<Rightarrow> SearchResult list" where
  "candidates toLowerCase m q = List.map_filter (suggestion toLowerCase m q) (allFiles m)"

text \<open>
  The comparator passed to \<^verbatim>\<open>results.sort\<close>. \<^verbatim>\<open>String.prototype.localeCompare\<close> is
  the host's locale-sensitive comparison; it is a parameter.
\<close>

definition compareResults ::
  "(jsstring \<Rightarrow> jsstring \<Rightarrow> int) \<Rightarrow> SearchResult \<Rightarrow> SearchResult \<Rightarrow> int" where
  "compareResults localeCompare a b =
     (if isActive a \<noteq> isActive b then (if isActive a then - 1 else 1)
      else if isOpen a \<noteq> isOpen b then (if isOpen a then - 1 else 1)
      else if matchIn a \<noteq> matchIn b then (if matchIn a = InPath then - 1 else 1)
      else if length (path (res_file a)) \<noteq> length (path (res_file b))
      then int (length (path (res_file a))) - int (length (path (res_file b)))
      else localeCompare (path (res_file a)) (path (res_file b)))"

text \<open>
  \<^verbatim>\<open>Array.prototype.sort(comparefn)\<close> is stable; for a consistent comparator every stable
  sort returns the same list. The model is the stable insertion sort.
\<close>

fun insertBy :: "('a \<Rightarrow> 'a \<Rightarrow> int) \<Rightarrow> 'a \<Rightarrow> 'a list \<Rightarrow> 'a list" where
  "insertBy cmp x [] = [x]"
| "insertBy cmp x (y # ys) = (if cmp x y \<le> 0 then x # y # ys else y # insertBy cmp x ys)"

definition sortBy :: "('a \<Rightarrow> 'a \<Rightarrow> int) \<Rightarrow> 'a list \<Rightarrow> 'a list" where
  "sortBy cmp xs = foldr (insertBy cmp) xs []"

definition getSuggestions ::
  "(jsstring \<Rightarrow> jsstring) \<Rightarrow> (jsstring \<Rightarrow> jsstring \<Rightarrow> int) \<Rightarrow> FileSearchModal \<Rightarrow> jsstring
     \<Rightarrow> SearchResult list" where
  "getSuggestions toLowerCase localeCompare m query =
     (let q = toLowerCase (trim query)
      in if q = [] then []
         else take 200 (sortBy (compareResults localeCompare) (candidates toLowerCase m q)))"

text \<open>
  The ranking in the words of the specification: sort by the five keys, in this
  priority, and keep the first 200. \<open>k\<close> is the sort key of a path under the order of
  the fifth criterion; \<open>False < True\<close>, so \<open>\<not> isActive\<close> puts the active file first.
\<close>

definition rankKey :: "(jsstring \<Rightarrow> 'k) \<Rightarrow> SearchResult \<Rightarrow> bool \<times> bool \<times> bool \<times> nat \<times> 'k" where
  "rankKey k r =
     (\<not> isActive r, \<not> isOpen r, matchIn r = InContent, length (path (res_file r)), k (path (res_file r)))"

definition rank_spec :: "(jsstring \<Rightarrow> 'k::linorder) \<Rightarrow> SearchResult list \<Rightarrow> SearchResult list" where
  "rank_spec k rs = take 200 (sort_key (rankKey k) rs)"

text \<open>
  Two comparisons a host can give for \<^verbatim>\<open>localeCompare\<close>. The first is the order of the
  code units. The second is alphabetical on the Basic Latin letters as a collation is:
  letters compare regardless of case first, and a lower-case letter goes before its
  upper-case letter among strings that are otherwise equal. JavaScript engines answer
  \<^verbatim>\<open>"a.md".localeCompare("B.md") < 0\<close>, as the second does.
\<close>

definition localeCompare_codeunit :: "jsstring \<Rightarrow> jsstring \<Rightarrow> int" where
  "localeCompare_codeunit a b = (if a < b then - 1 else if a = b then 0 else 1)"

definition collationKey :: "jsstring \<Rightarrow> jsstring \<times> bool list" where
  "collationKey s = (toLowerCase_latin s, map (\<lambda>c. 65 \<le> c \<and> c \<le> 90) s)"

definition localeCompare_collation :: "jsstring \<Rightarrow> jsstring \<Rightarrow> int" where
  "localeCompare_collation a b =
     (if collationKey a < collationKey b then - 1
      else if collationKey a = collationKey b then 0 else 1)"

section \<open>The build as a background task\<close>

text \<open>
  \<^verbatim>\<open>buildInitialIndex\<close> suspends at every \<^verbatim>\<open>await\<close>, and event handlers and further
  calls run in between. \<open>builds\<close> holds, for every call of \<^verbatim>\<open>buildInitialIndex\<close> that
  has passed its guard and not yet left its \<^verbatim>\<open>finally\<close> block, the files its loop
  still has to visit. \<open>CallBuild files\<close> is a call (\<open>files\<close> is what
  \<^verbatim>\<open>getFiles()\<close> returns); \<open>BuildStep k r\<close> resumes the \<open>k\<close>-th running call: one
  iteration of its loop with the read answering \<open>r\<close>, or its \<^verbatim>\<open>finally\<close> block when
  the loop is over or the iteration raised; \<open>Dispatch e\<close> is a vault event.
\<close>

record Runtime =
  contentIndex :: ContentIndex
  builds :: "TFile list list"

datatype action =
    CallBuild "TFile list"
  | BuildStep nat "error + jsstring"
  | Dispatch event

definition newRuntime :: Runtime where
  "newRuntime = \<lparr>contentIndex = newContentIndex, builds = []\<rparr>"

fun step :: "(jsstring \<Rightarrow> jsstring) \<Rightarrow> action \<Rightarrow> Runtime \<Rightarrow> Runtime" where
  "step toLowerCase (CallBuild files) rt =
     (if building (contentIndex rt) then rt
      else rt\<lparr>contentIndex := (contentIndex rt)\<lparr>building := True\<rparr>,
              builds := builds rt @ [files]\<rparr>)"
| "step toLowerCase (BuildStep k r) rt =
     (if k < length (builds rt) then
        (case builds rt ! k of
           [] \<Rightarrow> rt\<lparr>contentIndex := (contentIndex rt)\<lparr>building := False\<rparr>,
                    builds := take k (builds rt) @ drop (Suc k) (builds rt)\<rparr>
         | f # fs \<Rightarrow>
             (case indexFileIfEligible toLowerCase (\<lambda>_. r) f (contentIndex rt) of
                (s', None) \<Rightarrow> rt\<lparr>contentIndex := s', builds := (builds rt)[k := fs]\<rparr>
              | (s', Some e) \<Rightarrow>
                  rt\<lparr>contentIndex := s'\<lparr>building := False\<rparr>,
                     builds := take k (builds rt) @ drop (Suc k) (builds rt)\<rparr>))
      else rt)"
| "step toLowerCase (Dispatch e) rt =
     rt\<lparr>contentIndex := applyEvent toLowerCase e (contentIndex rt)\<rparr>"

definition run :: "(jsstring \<Rightarrow> jsstring) \<Rightarrow> action list \<Rightarrow> Runtime \<Rightarrow> Runtime" where
  "run toLowerCase acts rt = foldl (\<lambda>rt a. step toLowerCase a rt) rt acts"

section \<open>Pending reads\<close>

text \<open>
  The handlers of \<^verbatim>\<open>modify\<close> and \<^verbatim>\<open>create\<close> call \<^verbatim>\<open>indexFileIfEligible\<close> and do
  not await it, and the build loop awaits each of its calls while events keep arriving.
  A call runs in one piece up to \<^verbatim>\<open>await this.app.vault.cachedRead(file)\<close>: the two
  filters, each with its \<^verbatim>\<open>delete\<close> and \<^verbatim>\<open>return\<close>. \<open>indexFileIfEligible_sync\<close> is
  that part; its second component tells whether the call went on to the read.
\<close>

definition indexFileIfEligible_sync :: "TFile \<Rightarrow> ContentIndex \<Rightarrow> ContentIndex \<times> bool" where
  "indexFileIfEligible_sync file s =
     (if extension file \<notin> indexExtensions
      then (s\<lparr>textByPath := (textByPath s)(path file := None)\<rparr>, False)
      else if (case stat_size file of Some n \<Rightarrow> n > maxFileBytes | None \<Rightarrow> False)
      then (s\<lparr>textByPath := (textByPath s)(path file := None)\<rparr>, False)
      else (s, True))"

text \<open>
  The call resumes when its read settles, and only then writes: \<^verbatim>\<open>set\<close> with the
  lower-cased text, or \<^verbatim>\<open>delete\<close> in the \<^verbatim>\<open>catch\<close> block for a rejected read.
\<close>

definition indexFileIfEligible_resume ::
  "(jsstring \<Rightarrow> jsstring) \<Rightarrow> TFile \<Rightarrow> error + jsstring \<Rightarrow> ContentIndex \<Rightarrow> ContentIndex" where
  "indexFileIfEligible_resume toLowerCase file r s =
     (case r of
        Inr raw \<Rightarrow> s\<lparr>textByPath := (textByPath s)(path file \<mapsto> toLowerCase raw)\<rparr>
      | Inl e \<Rightarrow> s\<lparr>textByPath := (textByPath s)(path file := None)\<rparr>)"

text \<open>
  The index together with the calls whose read has not settled yet, oldest first.
\<close>

record Interleaved =
  indexNow :: ContentIndex
  pendingReads :: "TFile list"


text \<open>
  A turn of the event loop: a call of \<^verbatim>\<open>indexFileIfEligible\<close> (by the handler of
  \<^verbatim>\<open>modify\<close> or \<^verbatim>\<open>create\<close>, or by the build loop), up to its \<^verbatim>\<open>await\<close>; the read of
  the \<open>k\<close>-th pending call settles, with the text or rejected, and that call runs to
  its end; a \<^verbatim>\<open>delete\<close> event; a \<^verbatim>\<open>rename\<close> event. Reads settle in any order, and
  with any answer.
\<close>

datatype turn =
    IndexCall TFile
  | ReadSettles nat "error + jsstring"
  | DeleteEvent TFile
  | RenameEvent TFile jsstring

fun takeTurn :: "(jsstring \<Rightarrow> jsstring) \<Rightarrow> turn \<Rightarrow> Interleaved \<Rightarrow> Interleaved" where
  "takeTurn toLowerCase (IndexCall file) st =
     (case indexFileIfEligible_sync file (indexNow st) of
        (s', True) \<Rightarrow> \<lparr>indexNow = s', pendingReads = pendingReads st @ [file]\<rparr>
      | (s', False) \<Rightarrow> \<lparr>indexNow = s', pendingReads = pendingReads st\<rparr>)"
| "takeTurn toLowerCase (ReadSettles k r) st =
     (if k < length (pendingReads st)
      then \<lparr>indexNow = indexFileIfEligible_resume toLowerCase (pendingReads st ! k) r (indexNow st),
            pendingReads = take k (pendingReads st) @ drop (Suc k) (pendingReads st)\<rparr>
      else st)"
| "takeTurn toLowerCase (DeleteEvent file) st = st\<lparr>indexNow := remove_file file (indexNow st)\<rparr>"
| "takeTurn toLowerCase (RenameEvent file oldPath) st =
     st\<lparr>indexNow := rename oldPath file (indexNow st)\<rparr>"

definition takeTurns :: "(jsstring \<Rightarrow> jsstring) \<Rightarrow> turn list \<Rightarrow> Interleaved \<Rightarrow> Interleaved" where
  "takeTurns toLowerCase ts st = foldl (\<lambda>st t. takeTurn toLowerCase t st) st ts"

section \<open>Notions of the specification\<close>

text \<open>The query occurs in the text at offset \<open>i\<close>.\<close>

definition occursAt :: "jsstring \<Rightarrow> jsstring \<Rightarrow> nat \<Rightarrow> bool" where
  "occursAt text q i = (i + length q \<le> length text \<and> take (length q) (drop i text) = q)"

text \<open>
  Collapsing every run of white space to one space and trimming, in the words of the
  specification and without the builtins: the words of a string are its maximal runs of
  code units that are not white space; the cleaned string is the words, with one space
  (32) between two neighbours and nothing before the first or after the last.
\<close>

function wordsOf :: "jsstring \<Rightarrow> jsstring list" where
  "wordsOf s =
     (case dropWhile isWhiteSpace s of
        [] \<Rightarrow> []
      | c # cs \<Rightarrow>
          (c # takeWhile (\<lambda>x. \<not> isWhiteSpace x) cs)
          # wordsOf (dropWhile (\<lambda>x. \<not> isWhiteSpace x) cs))"
  by pat_completeness auto
termination
proof (relation "measure length")
  show "wf (measure length)" by simp
next
  fix s :: jsstring and c cs
  assume a: "dropWhile isWhiteSpace s = c # cs"
  have "length (dropWhile (\<lambda>x. \<not> isWhiteSpace x) cs) \<le> length cs"
    by (rule length_dropWhile_le)
  also have "length cs < length (c # cs)" by simp
  also have "length (c # cs) \<le> length s"
    unfolding a [symmetric] by (rule length_dropWhile_le)
  finally show "(dropWhile (\<lambda>x. \<not> isWhiteSpace x) cs, s) \<in> measure length"
    by simp
qed

declare wordsOf.simps [simp del]

fun joinWords :: "jsstring list \<Rightarrow> jsstring" where
  "joinWords [] = []"
| "joinWords [w] = w"
| "joinWords (w # v # vs) = w @ 32 # joinWords (v # vs)"

text \<open>
  The snippet for a match at offset \<open>i\<close> of a query of length \<open>L\<close>, in the words of
  the specification: the window from \<open>max(0, i - 40)\<close> (on the naturals, \<open>i - 40\<close>) to
  \<open>min(len(text), i + L + 60)\<close>, its words joined by single spaces, a marker (U+2026 and
  a space) in front when the window starts after offset 0 and one (a space and U+2026)
  behind when it ends before the end of the text.
\<close>

definition snippetAround :: "jsstring \<Rightarrow> nat \<Rightarrow> nat \<Rightarrow> jsstring" where
  "snippetAround text i L =
     (let start = i - 40;
          end = min (length text) (i + L + 60);
          body = joinWords (wordsOf (take (end - start) (drop start text)))
      in (if start > 0 then [8230, 32] else []) @ body
         @ (if end < length text then [32, 8230] else []))"






text \<open>At most one build runs, and the flag is set exactly while one runs.\<close>

definition singleFlight :: "Runtime \<Rightarrow> bool" where
  "singleFlight rt =
     (length (builds rt) \<le> 1 \<and> building (contentIndex rt) = (builds rt \<noteq> []))"

section \<open>Strings: what the builtins compute\<close>

lemma str_includes_sublist: "str_includes t q = sublist q t"
  by (induction t) (simp_all add: sublist_Cons_right)

lemma indexOf_None_sublist: "(indexOf t q = None) = (\<not> sublist q t)"
  by (induction t) (simp_all add: sublist_Cons_right)

lemma occursAt_prefix: "occursAt t q i = (i \<le> length t \<and> prefix q (drop i t))"
proof
  assume "occursAt t q i"
  then have len: "i + length q \<le> length t" and tk: "take (length q) (drop i t) = q"
    by (simp_all add: occursAt_def)
  from tk have "prefix q (drop i t)"
    by (metis take_is_prefix)
  with len show "i \<le> length t \<and> prefix q (drop i t)" by simp
next
  assume a: "i \<le> length t \<and> prefix q (drop i t)"
  then obtain zs where zs: "drop i t = q @ zs"
    by (auto simp: prefix_def)
  then have "length (drop i t) = length q + length zs" by simp
  then have "length t - i = length q + length zs" by simp
  with a have "i + length q \<le> length t" by arith
  moreover from zs have "take (length q) (drop i t) = q" by simp
  ultimately show "occursAt t q i" by (simp add: occursAt_def)
qed

lemma occursAt_Nil: "occursAt [] q i = (i = 0 \<and> q = [])"
  by (auto simp: occursAt_prefix)

lemma occursAt_Cons_0: "occursAt (c # cs) q 0 = prefix q (c # cs)"
  by (simp add: occursAt_prefix)

lemma occursAt_Cons_Suc: "occursAt (c # cs) q (Suc i) = occursAt cs q i"
  by (simp add: occursAt_prefix)

lemma indexOf_Some_first:
  "indexOf t q = Some i \<Longrightarrow> occursAt t q i \<and> (\<forall>j<i. \<not> occursAt t q j)"
proof (induction t arbitrary: i)
  case Nil
  then show ?case by (simp add: occursAt_Nil split: if_splits)
next
  case (Cons c cs)
  show ?case
  proof (cases "prefix q (c # cs)")
    case True
    with Cons.prems show ?thesis by (simp add: occursAt_Cons_0)
  next
    case False
    with Cons.prems obtain i' where i': "indexOf cs q = Some i'" and i: "i = Suc i'"
      by auto
    from Cons.IH [OF i'] have occ: "occursAt cs q i'" and first: "\<forall>j<i'. \<not> occursAt cs q j"
      by simp_all
    have "\<not> occursAt (c # cs) q j" if "j < i" for j
    proof (cases j)
      case 0
      with False show ?thesis by (simp add: occursAt_Cons_0)
    next
      case (Suc j')
      with that i first show ?thesis by (simp add: occursAt_Cons_Suc)
    qed
    with occ i show ?thesis by (simp add: occursAt_Cons_Suc)
  qed
qed

lemma indexOf_None_nowhere:
  "indexOf t q = None \<Longrightarrow> \<not> occursAt t q i"
proof (induction t arbitrary: i)
  case Nil
  then show ?case by (simp add: occursAt_Nil split: if_splits)
next
  case (Cons c cs)
  then show ?case
    by (cases i) (simp_all add: occursAt_Cons_0 occursAt_Cons_Suc split: if_splits)
qed

lemma window_start: "nat (int idx - 40) = idx - 40"
  by arith

text \<open>
  What \<^verbatim>\<open>replace(/\s+/g, " ")\<close> and \<^verbatim>\<open>trim()\<close> do: collapsing keeps every code unit
  that is not white space, in order; the only white space it leaves is the space (32), and
  never two in a row. Trimming removes a run of white space at each end and nothing else,
  and what is left neither starts nor ends with white space.
\<close>

lemma isWhiteSpace_space: "isWhiteSpace 32"
  by (simp add: isWhiteSpace_def)

lemma filter_dropWhile_not:
  "filter (\<lambda>c. \<not> P c) (dropWhile P cs) = filter (\<lambda>c. \<not> P c) cs"
  by (induction cs) simp_all

lemma collapseWhitespace_keeps_text:
  "filter (\<lambda>c. \<not> isWhiteSpace c) (collapseWhitespace s) = filter (\<lambda>c. \<not> isWhiteSpace c) s"
  by (induction s rule: collapseWhitespace.induct)
     (simp_all add: isWhiteSpace_space filter_dropWhile_not)

lemma collapseWhitespace_space_only:
  "c \<in> set (collapseWhitespace s) \<Longrightarrow> isWhiteSpace c \<Longrightarrow> c = 32"
  by (induction s rule: collapseWhitespace.induct) (auto split: if_splits)

lemma collapseWhitespace_hd:
  "s \<noteq> [] \<Longrightarrow> collapseWhitespace s \<noteq> []
     \<and> isWhiteSpace (hd (collapseWhitespace s)) = isWhiteSpace (hd s)"
  by (cases s) (simp_all add: isWhiteSpace_space)

lemma collapseWhitespace_Nil: "(collapseWhitespace s = []) = (s = [])"
  by (cases s) simp_all

lemma collapseWhitespace_no_run:
  "successively (\<lambda>a b. \<not> (isWhiteSpace a \<and> isWhiteSpace b)) (collapseWhitespace s)"
proof (induction s rule: collapseWhitespace.induct)
  case 1
  show ?case by simp
next
  case (2 c cs)
  show ?case
  proof (cases "isWhiteSpace c")
    case True
    let ?rest = "dropWhile isWhiteSpace cs"
    have "?rest \<noteq> [] \<Longrightarrow> \<not> isWhiteSpace (hd (collapseWhitespace ?rest))"
      using collapseWhitespace_hd [of ?rest] hd_dropWhile [of isWhiteSpace cs] by simp
    with True 2 show ?thesis
      by (auto simp: successively_Cons collapseWhitespace_Nil)
  next
    case False
    with 2 show ?thesis
      by (auto simp: successively_Cons)
  qed
qed

lemma trim_suffix:
  "dropWhile isWhiteSpace s =
     trim s @ rev (takeWhile isWhiteSpace (rev (dropWhile isWhiteSpace s)))"
proof -
  let ?d = "dropWhile isWhiteSpace s"
  have "rev ?d = takeWhile isWhiteSpace (rev ?d) @ dropWhile isWhiteSpace (rev ?d)"
    by (rule takeWhile_dropWhile_id [symmetric])
  then have "rev (rev ?d) = rev (takeWhile isWhiteSpace (rev ?d) @ dropWhile isWhiteSpace (rev ?d))"
    by (rule arg_cong)
  then show ?thesis
    by (simp only: rev_rev_ident rev_append trim_def)
qed

lemma list_all_takeWhile: "list_all P (takeWhile P xs)"
  by (induction xs) simp_all

lemma trim_strips_white_space:
  "\<exists>a b. s = a @ trim s @ b \<and> list_all isWhiteSpace a \<and> list_all isWhiteSpace b"
proof -
  let ?d = "dropWhile isWhiteSpace s"
  let ?a = "takeWhile isWhiteSpace s"
  let ?b = "rev (takeWhile isWhiteSpace (rev ?d))"
  have "s = ?a @ ?d"
    by (rule takeWhile_dropWhile_id [symmetric])
  also have "?d = trim s @ ?b"
    by (rule trim_suffix)
  finally have s: "s = ?a @ trim s @ ?b" .
  have a: "list_all isWhiteSpace ?a"
    by (rule list_all_takeWhile)
  have b: "list_all isWhiteSpace ?b"
    by (simp only: list_all_rev list_all_takeWhile)
  show ?thesis
    by (rule exI [of _ ?a], rule exI [of _ ?b], rule conjI [OF s conjI [OF a b]])
qed

lemma trim_edges:
  assumes "trim s \<noteq> []"
  shows "\<not> isWhiteSpace (hd (trim s)) \<and> \<not> isWhiteSpace (last (trim s))"
proof -
  let ?d = "dropWhile isWhiteSpace s"
  let ?e = "dropWhile isWhiteSpace (rev ?d)"
  from assms have e: "?e \<noteq> []"
    by (simp only: trim_def rev_is_Nil_conv not_False_eq_True)
  have d: "?d \<noteq> []"
  proof
    assume "?d = []"
    then have "?e = []" by (simp only: rev.simps dropWhile.simps)
    with e show False by (rule notE)
  qed
  from e have "\<not> isWhiteSpace (hd ?e)"
    by (rule hd_dropWhile)
  moreover from e have "last (trim s) = hd ?e"
    by (simp only: trim_def last_rev)
  ultimately have l: "\<not> isWhiteSpace (last (trim s))"
    by simp
  from d have "\<not> isWhiteSpace (hd ?d)"
    by (rule hd_dropWhile)
  moreover have "hd ?d = hd (trim s)"
    using assms by (subst trim_suffix) (rule hd_append2)
  ultimately have "\<not> isWhiteSpace (hd (trim s))"
    by simp
  with l show ?thesis by simp
qed

text \<open>
  The two builtins together compute the cleaned string of the specification: the words
  joined by single spaces.
\<close>

lemma wordsOf_nonempty_words: "[] \<notin> set (wordsOf s)"
proof (induction s rule: wordsOf.induct)
  case (1 s)
  show ?case
  proof (cases "dropWhile isWhiteSpace s")
    case Nil
    then show ?thesis by (simp add: wordsOf.simps [of s] del: dropWhile_eq_Nil_conv)
  next
    case (Cons c cs)
    with 1 [OF Cons] show ?thesis by (simp add: wordsOf.simps [of s])
  qed
qed

lemma joinWords_Cons: "joinWords (w # vs) = (if vs = [] then w else w @ 32 # joinWords vs)"
  by (cases vs) simp_all

lemma joinWords_Nil_iff: "[] \<notin> set vs \<Longrightarrow> (joinWords vs = []) = (vs = [])"
  by (cases vs) (auto simp: joinWords_Cons)

lemma wordsOf_lstrip: "wordsOf (dropWhile isWhiteSpace s) = wordsOf s"
  by (simp add: wordsOf.simps [of s] wordsOf.simps [of "dropWhile isWhiteSpace s"])

lemma collapse_text_prefix:
  "\<forall>x \<in> set w. \<not> isWhiteSpace x \<Longrightarrow> collapseWhitespace (w @ y) = w @ collapseWhitespace y"
  by (induction w) simp_all

lemma lstrip_collapse:
  "dropWhile isWhiteSpace (collapseWhitespace s) = collapseWhitespace (dropWhile isWhiteSpace s)"
proof (cases s)
  case Nil
  then show ?thesis by simp
next
  case (Cons c cs)
  show ?thesis
  proof (cases "isWhiteSpace c")
    case False
    with Cons show ?thesis by simp
  next
    case True
    let ?r = "dropWhile isWhiteSpace cs"
    have "dropWhile isWhiteSpace (collapseWhitespace ?r) = collapseWhitespace ?r"
    proof (cases ?r)
      case Nil
      then show ?thesis by (simp del: dropWhile_eq_Nil_conv)
    next
      case (Cons d ds)
      then have "\<not> isWhiteSpace d"
        using hd_dropWhile [of isWhiteSpace cs] by simp
      with Cons show ?thesis by simp
    qed
    with True Cons show ?thesis by (simp add: isWhiteSpace_space)
  qed
qed

lemma rstrip_append:
  "rev (dropWhile isWhiteSpace (rev (a @ b))) =
     (if rev (dropWhile isWhiteSpace (rev b)) = [] then rev (dropWhile isWhiteSpace (rev a))
      else a @ rev (dropWhile isWhiteSpace (rev b)))"
  by (auto simp: dropWhile_append)

lemma rstrip_text:
  "w \<noteq> [] \<Longrightarrow> \<not> isWhiteSpace (last w) \<Longrightarrow> rev (dropWhile isWhiteSpace (rev w)) = w"
  by (cases w rule: rev_cases) simp_all

lemma trim_collapse_lstrip:
  "trim (collapseWhitespace (dropWhile isWhiteSpace s)) = trim (collapseWhitespace s)"
  by (simp add: trim_def lstrip_collapse [symmetric])

lemma trim_as_rstrip:
  "trim (collapseWhitespace s)
     = rev (dropWhile isWhiteSpace (rev (collapseWhitespace (dropWhile isWhiteSpace s))))"
  by (simp add: trim_def lstrip_collapse)

lemma rstrip_collapse_after_word:
  assumes "rest = [] \<or> isWhiteSpace (hd rest)"
  shows "rev (dropWhile isWhiteSpace (rev (collapseWhitespace rest)))
     = (if trim (collapseWhitespace rest) = [] then [] else 32 # trim (collapseWhitespace rest))"
proof (cases rest)
  case Nil
  then show ?thesis by (simp add: trim_def)
next
  case (Cons d ds)
  with assms have d: "isWhiteSpace d" by simp
  let ?y = "collapseWhitespace (dropWhile isWhiteSpace ds)"
  have c: "collapseWhitespace rest = [32] @ ?y"
    using Cons d by simp
  have t: "trim (collapseWhitespace rest) = rev (dropWhile isWhiteSpace (rev ?y))"
    unfolding trim_as_rstrip Cons using d by simp
  have e1: "rev (dropWhile isWhiteSpace (rev ([32] @ ?y)))
      = (if rev (dropWhile isWhiteSpace (rev ?y)) = [] then rev (dropWhile isWhiteSpace (rev [32]))
         else [32] @ rev (dropWhile isWhiteSpace (rev ?y)))"
    by (rule rstrip_append)
  have e2: "rev (dropWhile isWhiteSpace (rev [32])) = []"
    by (simp add: isWhiteSpace_space)
  have lhs: "rev (dropWhile isWhiteSpace (rev (collapseWhitespace rest)))
      = (if rev (dropWhile isWhiteSpace (rev ?y)) = [] then []
         else [32] @ rev (dropWhile isWhiteSpace (rev ?y)))"
    unfolding c e1 e2 by (rule refl)
  show ?thesis
    by (simp only: lhs t) simp
qed

lemma trim_collapse_words: "trim (collapseWhitespace s) = joinWords (wordsOf s)"
proof (induction s rule: wordsOf.induct)
  case (1 s)
  show ?case
  proof (cases "dropWhile isWhiteSpace s")
    case Nil
    then have "trim (collapseWhitespace s) = []"
      by (simp add: trim_as_rstrip del: dropWhile_eq_Nil_conv)
    with Nil show ?thesis by (simp add: wordsOf.simps [of s] del: dropWhile_eq_Nil_conv)
  next
    case (Cons c cs)
    let ?w = "c # takeWhile (\<lambda>x. \<not> isWhiteSpace x) cs"
    let ?rest = "dropWhile (\<lambda>x. \<not> isWhiteSpace x) cs"
    have c: "\<not> isWhiteSpace c"
      using hd_dropWhile [of isWhiteSpace s] Cons by simp
    have w: "\<forall>x \<in> set ?w. \<not> isWhiteSpace x"
      using c by (auto dest: set_takeWhileD)
    then have lw: "\<not> isWhiteSpace (last ?w)"
      using last_in_set [of ?w] by blast
    have rw: "rev (dropWhile isWhiteSpace (rev ?w)) = ?w"
      by (rule rstrip_text [OF _ lw]) simp
    have rest: "?rest = [] \<or> isWhiteSpace (hd ?rest)"
      using hd_dropWhile [of "\<lambda>x. \<not> isWhiteSpace x" cs] by auto
    have split: "dropWhile isWhiteSpace s = ?w @ ?rest"
      by (simp add: Cons)
    have IH: "trim (collapseWhitespace ?rest) = joinWords (wordsOf ?rest)"
      by (rule 1 [OF Cons])
    have "trim (collapseWhitespace s)
        = rev (dropWhile isWhiteSpace (rev (?w @ collapseWhitespace ?rest)))"
      unfolding trim_as_rstrip split by (simp only: collapse_text_prefix [OF w])
    also have "\<dots> = (if rev (dropWhile isWhiteSpace (rev (collapseWhitespace ?rest))) = [] then ?w
        else ?w @ rev (dropWhile isWhiteSpace (rev (collapseWhitespace ?rest))))"
      by (simp only: rstrip_append rw)
    also have "\<dots> = (if joinWords (wordsOf ?rest) = [] then ?w
        else ?w @ 32 # joinWords (wordsOf ?rest))"
      by (simp add: rstrip_collapse_after_word [OF rest] IH)
    also have "\<dots> = joinWords (?w # wordsOf ?rest)"
      by (simp add: joinWords_Cons joinWords_Nil_iff [OF wordsOf_nonempty_words])
    also have "\<dots> = joinWords (wordsOf s)"
      by (simp add: wordsOf.simps [of s] Cons)
    finally show ?thesis .
  qed
qed

section \<open>The index operations\<close>

lemma indexFileIfEligible_raises_nothing:
  "snd (indexFileIfEligible toLowerCase cachedRead f s) = None"
  by (simp add: indexFileIfEligible_def split: option.splits sum.splits)

lemma indexFileIfEligible_building:
  "building (fst (indexFileIfEligible toLowerCase cachedRead f s)) = building s"
  by (simp add: indexFileIfEligible_def split: option.splits sum.splits)

lemma indexFileIfEligible_other_path:
  "p \<noteq> path f \<Longrightarrow> textByPath (fst (indexFileIfEligible toLowerCase cachedRead f s)) p = textByPath s p"
  by (simp add: indexFileIfEligible_def split: option.splits sum.splits)

lemma indexFileIfEligible_own_path:
  "textByPath (fst (indexFileIfEligible toLowerCase cachedRead f s)) (path f) =
     (case cachedRead f of
        Inr raw \<Rightarrow> if foundIndexable f (cachedRead f) then Some (toLowerCase raw) else None
      | Inl e \<Rightarrow> None)"
  by (auto simp: indexFileIfEligible_def foundIndexable_def split: option.splits sum.splits)

lemma str_md_allowed: "str ''md'' \<in> indexExtensions"
  by (simp add: indexExtensions_def)

lemma findSnippet_found:
  assumes "textByPath s p = Some t" and "t \<noteq> []" and "indexOf t q = Some i"
  shows "findSnippet s p q = Some (snippetAround t i (length q), i)"
  using assms
  by (simp add: findSnippet_def snippetAround_def slice_def Let_def window_start
      trim_collapse_words)

section \<open>Claims\<close>

subsection \<open>Snippet extraction\<close>

text \<open>
  Claim C4. For a stored text and a non-empty query: when the query occurs in the text,
  \<open>findSnippet\<close> returns the least offset \<open>i\<close> at which it occurs together with
  the snippet of the window from \<open>max(0, i - 40)\<close> to \<open>min(len(text), i + L + 60)\<close>:
  the words of the window with one space between neighbours (every run of white space
  collapsed to a single space, none left in front or behind), a marker in front exactly
  when the window starts after offset 0 and a marker behind exactly when the window ends
  before the end of the text; when the query occurs nowhere, the result is absent.
  \<open>snippetAround\<close>, \<open>wordsOf\<close> and \<open>joinWords\<close> say this without
  \<open>trim\<close> and \<open>collapseWhitespace\<close>, which the code side uses.
\<close>

theorem findSnippet_first_occurrence:
  assumes "textByPath s p = Some t" and "q \<noteq> []"
  shows "((\<exists>i. occursAt t q i) \<longrightarrow>
            (\<exists>i. occursAt t q i \<and> (\<forall>j<i. \<not> occursAt t q j)
                 \<and> findSnippet s p q = Some (snippetAround t i (length q), i)))
         \<and> ((\<forall>i. \<not> occursAt t q i) \<longrightarrow> findSnippet s p q = None)"
proof (cases "indexOf t q")
  case None
  then have "\<forall>i. \<not> occursAt t q i"
    by (simp add: indexOf_None_nowhere)
  moreover from None assms have "findSnippet s p q = None"
    by (simp add: findSnippet_def)
  ultimately show ?thesis by simp
next
  case (Some i)
  from indexOf_Some_first [OF Some]
  have occ: "occursAt t q i" and first: "\<forall>j<i. \<not> occursAt t q j"
    by simp_all
  from occ assms(2) have "t \<noteq> []"
    by (auto simp: occursAt_def)
  with assms Some have "findSnippet s p q = Some (snippetAround t i (length q), i)"
    by (simp add: findSnippet_found)
  with occ first show ?thesis by blast
qed

text \<open>
  The theorem at a text of 133 code units with the query \<^verbatim>\<open>"needle"\<close> at offset 50. The
  window runs from 10 to 116; it starts with a space, a tab and a space, ends with two
  spaces and a line feed, and holds runs of two spaces and of a line feed and a tab. The
  snippet has a marker at both ends, no white space next to the markers but their own
  space, and one space for every run.
\<close>

theorem findSnippet_first_occurrence_witness:
  "textByPath \<lparr>textByPath = [str ''n.md'' \<mapsto> (str ''intro text'' @ [32, 9, 32] @ str ''the quick brown fox jumps over a dog '' @ str ''needle''
        @ str '' in  a'' @ [10, 9] @ str ''haystack of many more words to fill the window up''
        @ [32, 32, 10] @ str ''beyond the window'')], building = False\<rparr> (str ''n.md'') = Some (str ''intro text'' @ [32, 9, 32] @ str ''the quick brown fox jumps over a dog '' @ str ''needle''
        @ str '' in  a'' @ [10, 9] @ str ''haystack of many more words to fill the window up''
        @ [32, 32, 10] @ str ''beyond the window'')
   \<and> str ''needle'' \<noteq> []
   \<and> occursAt (str ''intro text'' @ [32, 9, 32] @ str ''the quick brown fox jumps over a dog '' @ str ''needle''
        @ str '' in  a'' @ [10, 9] @ str ''haystack of many more words to fill the window up''
        @ [32, 32, 10] @ str ''beyond the window'') (str ''needle'') 50
   \<and> (\<exists>i. occursAt (str ''intro text'' @ [32, 9, 32] @ str ''the quick brown fox jumps over a dog '' @ str ''needle''
        @ str '' in  a'' @ [10, 9] @ str ''haystack of many more words to fill the window up''
        @ [32, 32, 10] @ str ''beyond the window'') (str ''needle'') i \<and> (\<forall>j<i. \<not> occursAt (str ''intro text'' @ [32, 9, 32] @ str ''the quick brown fox jumps over a dog '' @ str ''needle''
        @ str '' in  a'' @ [10, 9] @ str ''haystack of many more words to fill the window up''
        @ [32, 32, 10] @ str ''beyond the window'') (str ''needle'') j)
          \<and> findSnippet \<lparr>textByPath = [str ''n.md'' \<mapsto> (str ''intro text'' @ [32, 9, 32] @ str ''the quick brown fox jumps over a dog '' @ str ''needle''
        @ str '' in  a'' @ [10, 9] @ str ''haystack of many more words to fill the window up''
        @ [32, 32, 10] @ str ''beyond the window'')], building = False\<rparr> (str ''n.md'') (str ''needle'')
             = Some (snippetAround (str ''intro text'' @ [32, 9, 32] @ str ''the quick brown fox jumps over a dog '' @ str ''needle''
        @ str '' in  a'' @ [10, 9] @ str ''haystack of many more words to fill the window up''
        @ [32, 32, 10] @ str ''beyond the window'') i (length (str ''needle'')), i))
   \<and> findSnippet \<lparr>textByPath = [str ''n.md'' \<mapsto> (str ''intro text'' @ [32, 9, 32] @ str ''the quick brown fox jumps over a dog '' @ str ''needle''
        @ str '' in  a'' @ [10, 9] @ str ''haystack of many more words to fill the window up''
        @ [32, 32, 10] @ str ''beyond the window'')], building = False\<rparr> (str ''n.md'') (str ''needle'') = Some (([8230, 32] @ str ''the quick brown fox jumps over a dog needle in a haystack of many more words to fill the window up'' @ [32, 8230]), 50)
   \<and> snippetAround (str ''intro text'' @ [32, 9, 32] @ str ''the quick brown fox jumps over a dog '' @ str ''needle''
        @ str '' in  a'' @ [10, 9] @ str ''haystack of many more words to fill the window up''
        @ [32, 32, 10] @ str ''beyond the window'') 50 (length (str ''needle'')) = ([8230, 32] @ str ''the quick brown fox jumps over a dog needle in a haystack of many more words to fill the window up'' @ [32, 8230])"
proof -
  let ?T = "(str ''intro text'' @ [32, 9, 32] @ str ''the quick brown fox jumps over a dog '' @ str ''needle''
        @ str '' in  a'' @ [10, 9] @ str ''haystack of many more words to fill the window up''
        @ [32, 32, 10] @ str ''beyond the window'')"
  let ?S = "\<lparr>textByPath = [str ''n.md'' \<mapsto> (str ''intro text'' @ [32, 9, 32] @ str ''the quick brown fox jumps over a dog '' @ str ''needle''
        @ str '' in  a'' @ [10, 9] @ str ''haystack of many more words to fill the window up''
        @ [32, 32, 10] @ str ''beyond the window'')], building = False\<rparr>"
  have ent: "textByPath ?S (str ''n.md'') = Some ?T"
    by simp
  have ne: "str ''needle'' \<noteq> []"
    by (simp add: str_def)
  have occ: "occursAt ?T (str ''needle'') 50"
    by (simp add: occursAt_def str_def)
  have val: "findSnippet ?S (str ''n.md'') (str ''needle'') = Some (([8230, 32] @ str ''the quick brown fox jumps over a dog needle in a haystack of many more words to fill the window up'' @ [32, 8230]), 50)"
    by (simp add: findSnippet_def str_def slice_def trim_def isWhiteSpace_def Let_def)
  have ex: "\<exists>i. occursAt ?T (str ''needle'') i"
    using occ by (rule exI)
  note E = findSnippet_first_occurrence [OF ent ne, THEN conjunct1, THEN mp, OF ex]
  from E obtain i where i: "occursAt ?T (str ''needle'') i"
      "\<forall>j<i. \<not> occursAt ?T (str ''needle'') j"
      "findSnippet ?S (str ''n.md'') (str ''needle'')
         = Some (snippetAround ?T i (length (str ''needle'')), i)"
    by (elim exE conjE)
  from i(3) have "Some (snippetAround ?T i (length (str ''needle'')), i) = Some (([8230, 32] @ str ''the quick brown fox jumps over a dog needle in a haystack of many more words to fill the window up'' @ [32, 8230]), 50)"
    unfolding val by (rule sym)
  note ab = this [THEN option.inject [THEN iffD1], THEN prod.inject [THEN iffD1]]
  note a = ab [THEN conjunct1] and b = ab [THEN conjunct2]
  have spec: "snippetAround ?T 50 (length (str ''needle'')) = ([8230, 32] @ str ''the quick brown fox jumps over a dog needle in a haystack of many more words to fill the window up'' @ [32, 8230])"
    using a unfolding b .
  show ?thesis
    by (rule conjI [OF ent conjI [OF ne conjI [OF occ conjI [OF E conjI [OF val spec]]]]])
qed

subsection \<open>Rename\<close>

text \<open>
  Claim C7. \<open>rename oldPath f\<close>: when an entry exists at \<open>oldPath\<close>, the map after
  the call is the map with the key \<open>oldPath\<close> deleted and then the same value stored
  under the path of \<open>f\<close>, so the value is found unchanged under the new path, the old
  key is gone (when the two paths differ), and \<open>findSnippet\<close> and \<open>contains\<close>
  answer under the new path what they answered under the old one; the call takes no
  reader, so nothing is read again. When no entry exists at \<open>oldPath\<close>, the state is
  unchanged. The entries of all other paths are unchanged in both cases.
\<close>

theorem rename_moves_entry:
  "(textByPath s oldPath = Some v \<longrightarrow>
      rename oldPath f s = s\<lparr>textByPath := ((textByPath s)(oldPath := None))(path f \<mapsto> v)\<rparr>
      \<and> textByPath (rename oldPath f s) (path f) = Some v
      \<and> (oldPath \<noteq> path f \<longrightarrow> textByPath (rename oldPath f s) oldPath = None)
      \<and> findSnippet (rename oldPath f s) (path f) q = findSnippet s oldPath q
      \<and> contains (rename oldPath f s) (path f) q = contains s oldPath q)
   \<and> (textByPath s oldPath = None \<longrightarrow> rename oldPath f s = s)
   \<and> (p \<noteq> oldPath \<and> p \<noteq> path f \<longrightarrow> textByPath (rename oldPath f s) p = textByPath s p)
   \<and> building (rename oldPath f s) = building s"
  by (simp add: rename_def findSnippet_def contains_def split: option.splits)

text \<open>The theorem at an index with entries for \<^verbatim>\<open>a.md\<close> and \<^verbatim>\<open>c.md\<close>, renaming \<^verbatim>\<open>a.md\<close> to \<^verbatim>\<open>b.md\<close>.\<close>

theorem rename_moves_entry_witness:
  "textByPath \<lparr>textByPath = [str ''a.md'' \<mapsto> str ''hello world'', str ''c.md'' \<mapsto> str ''other''], building = False\<rparr>
      (str ''a.md'') = Some (str ''hello world'')
   \<and> str ''a.md'' \<noteq> str ''b.md''
   \<and> str ''c.md'' \<noteq> str ''a.md'' \<and> str ''c.md'' \<noteq> str ''b.md''
   \<and> textByPath (rename (str ''a.md'') \<lparr>path = str ''b.md'', extension = str ''md'', stat_size = Some 11\<rparr>
        \<lparr>textByPath = [str ''a.md'' \<mapsto> str ''hello world'', str ''c.md'' \<mapsto> str ''other''], building = False\<rparr>)
        (str ''b.md'') = Some (str ''hello world'')
   \<and> textByPath (rename (str ''a.md'') \<lparr>path = str ''b.md'', extension = str ''md'', stat_size = Some 11\<rparr>
        \<lparr>textByPath = [str ''a.md'' \<mapsto> str ''hello world'', str ''c.md'' \<mapsto> str ''other''], building = False\<rparr>)
        (str ''a.md'') = None
   \<and> textByPath (rename (str ''a.md'') \<lparr>path = str ''b.md'', extension = str ''md'', stat_size = Some 11\<rparr>
        \<lparr>textByPath = [str ''a.md'' \<mapsto> str ''hello world'', str ''c.md'' \<mapsto> str ''other''], building = False\<rparr>)
        (str ''c.md'') = Some (str ''other'')"
  using rename_moves_entry [of
      "\<lparr>textByPath = [str ''a.md'' \<mapsto> str ''hello world'', str ''c.md'' \<mapsto> str ''other''], building = False\<rparr>"
      "str ''a.md''" "str ''hello world''"
      "\<lparr>path = str ''b.md'', extension = str ''md'', stat_size = Some 11\<rparr>" "[]" "str ''c.md''"]
  by (simp add: str_def)

subsection \<open>Replaying a create or modify event\<close>

text \<open>
  Claim C9. Applying \<open>indexFileIfEligible\<close> for a file twice in a row, the read
  answering the same both times, gives the state that applying it once gives; so for
  the \<open>create\<close> and \<open>modify\<close> handlers.
\<close>

theorem upsert_twice_is_once:
  "indexFileIfEligible toLowerCase cachedRead f (fst (indexFileIfEligible toLowerCase cachedRead f s))
     = indexFileIfEligible toLowerCase cachedRead f s
   \<and> applyEvent toLowerCase (Create f r) (applyEvent toLowerCase (Create f r) s) = applyEvent toLowerCase (Create f r) s
   \<and> applyEvent toLowerCase (Modify f r) (applyEvent toLowerCase (Modify f r) s) = applyEvent toLowerCase (Modify f r) s"
  by (simp add: indexFileIfEligible_def split: option.splits sum.splits)

text \<open>The theorem at a \<open>modify\<close> event for \<^verbatim>\<open>a.md\<close> with the text \<^verbatim>\<open>"Hello"\<close>.\<close>

theorem upsert_twice_is_once_witness:
  "applyEvent toLowerCase_latin (Modify \<lparr>path = str ''a.md'', extension = str ''md'', stat_size = Some 5\<rparr> (Inr (str ''Hello'')))
     (applyEvent toLowerCase_latin (Modify \<lparr>path = str ''a.md'', extension = str ''md'', stat_size = Some 5\<rparr> (Inr (str ''Hello'')))
        newContentIndex)
   = \<lparr>textByPath = [str ''a.md'' \<mapsto> str ''hello''], building = False\<rparr>"
proof -
  have once: "applyEvent toLowerCase_latin (Modify \<lparr>path = str ''a.md'', extension = str ''md'', stat_size = Some 5\<rparr> (Inr (str ''Hello'')))
        newContentIndex = \<lparr>textByPath = [str ''a.md'' \<mapsto> str ''hello''], building = False\<rparr>"
    by (simp add: indexFileIfEligible_def str_md_allowed maxFileBytes_def newContentIndex_def
        toLowerCase_latin_def toLowerUnit_def)
       (simp add: str_def toLowerUnit_def)
  have twice: "applyEvent toLowerCase_latin (Modify \<lparr>path = str ''a.md'', extension = str ''md'', stat_size = Some 5\<rparr> (Inr (str ''Hello'')))
     (applyEvent toLowerCase_latin (Modify \<lparr>path = str ''a.md'', extension = str ''md'', stat_size = Some 5\<rparr> (Inr (str ''Hello'')))
        newContentIndex)
     = applyEvent toLowerCase_latin (Modify \<lparr>path = str ''a.md'', extension = str ''md'', stat_size = Some 5\<rparr> (Inr (str ''Hello'')))
        newContentIndex"
    using upsert_twice_is_once [of toLowerCase_latin "\<lambda>_. Inr (str ''Hello'')"
      "\<lparr>path = str ''a.md'', extension = str ''md'', stat_size = Some 5\<rparr>" newContentIndex
      "Inr (str ''Hello'')"]
    by blast
  show ?thesis
    unfolding twice by (rule once)
qed

subsection \<open>A file whose size is not available\<close>

text \<open>
  Claim C10. For a file whose extension is allowed and whose \<^verbatim>\<open>stat.size\<close> is not a
  number, \<open>indexFileIfEligible\<close> applies no size limit: it goes on to read the file, and
  stores the lower-cased text that was read, whatever its length (it deletes the entry
  when the read is rejected).
\<close>

theorem unknown_size_skips_limit:
  assumes "extension f \<in> indexExtensions" and "stat_size f = None"
  shows "indexFileIfEligible toLowerCase cachedRead f s =
           (case cachedRead f of
              Inr raw \<Rightarrow> (s\<lparr>textByPath := (textByPath s)(path f \<mapsto> toLowerCase raw)\<rparr>, None)
            | Inl e \<Rightarrow> (s\<lparr>textByPath := (textByPath s)(path f := None)\<rparr>, None))"
  using assms by (simp add: indexFileIfEligible_def)

text \<open>The theorem at a file of unknown size whose text has 1,000,001 code units.\<close>

theorem unknown_size_skips_limit_witness:
  "str ''md'' \<in> indexExtensions
   \<and> maxFileBytes < length (replicate 1000001 (65::nat))
   \<and> indexFileIfEligible toLowerCase_latin (\<lambda>_. Inr (replicate 1000001 65))
        \<lparr>path = str ''big.md'', extension = str ''md'', stat_size = None\<rparr> newContentIndex
      = (\<lparr>textByPath = [str ''big.md'' \<mapsto> replicate 1000001 97], building = False\<rparr>, None)"
  using unknown_size_skips_limit [of "\<lparr>path = str ''big.md'', extension = str ''md'', stat_size = None\<rparr>"
      toLowerCase_latin
      "\<lambda>_. Inr (replicate 1000001 65)" newContentIndex]
  by (simp add: str_md_allowed maxFileBytes_def toLowerCase_latin_def toLowerUnit_def newContentIndex_def)

subsection \<open>Contains\<close>

text \<open>
  Claim C8, as the code has it. \<open>contains path query\<close> is true exactly when an entry
  exists for the path, its stored text is not the empty string, and the text contains the
  query as a substring. The guard \<^verbatim>\<open>!!text\<close> is the one \<^verbatim>\<open>findSnippet\<close> has
  (\<^verbatim>\<open>if (!text) return null\<close>): an entry whose text is empty counts as no entry. For a
  query that is not empty, the condition on the text can be left out, an empty text
  containing no such query.
\<close>

theorem contains_iff_nonempty_text:
  "contains s p query = (\<exists>t. textByPath s p = Some t \<and> t \<noteq> [] \<and> sublist query t)
   \<and> (query \<noteq> [] \<longrightarrow>
        contains s p query = (\<exists>t. textByPath s p = Some t \<and> sublist query t))"
proof -
  have a: "contains s p query = (\<exists>t. textByPath s p = Some t \<and> t \<noteq> [] \<and> sublist query t)"
    by (simp add: contains_def str_includes_sublist split: option.splits)
  have "(\<exists>t. textByPath s p = Some t \<and> t \<noteq> [] \<and> sublist query t)
      = (\<exists>t. textByPath s p = Some t \<and> sublist query t)" if "query \<noteq> []"
    using that by auto
  with a show ?thesis
    by simp
qed

text \<open>The theorem at an entry \<^verbatim>\<open>"hello world"\<close> and the query \<^verbatim>\<open>"lo wo"\<close>.\<close>

theorem contains_iff_nonempty_text_witness:
  "str ''lo wo'' \<noteq> []
   \<and> contains \<lparr>textByPath = [str ''a.md'' \<mapsto> str ''hello world''], building = False\<rparr>
      (str ''a.md'') (str ''lo wo'')
   \<and> (\<exists>t. textByPath \<lparr>textByPath = [str ''a.md'' \<mapsto> str ''hello world''], building = False\<rparr>
          (str ''a.md'') = Some t \<and> sublist (str ''lo wo'') t)"
proof -
  let ?s = "\<lparr>textByPath = [str ''a.md'' \<mapsto> str ''hello world''], building = False\<rparr>"
  have ne: "str ''lo wo'' \<noteq> []"
    by (simp add: str_def)
  have c: "contains ?s (str ''a.md'') (str ''lo wo'')"
    by (simp add: contains_def str_def)
  note T = contains_iff_nonempty_text [of ?s "str ''a.md''" "str ''lo wo''",
      THEN conjunct2, rule_format, OF ne]
  from c have e: "\<exists>t. textByPath ?s (str ''a.md'') = Some t \<and> sublist (str ''lo wo'') t"
    by (rule T [THEN iffD1])
  show ?thesis
    by (rule conjI [OF ne conjI [OF c e]])
qed

text \<open>
  Claim C8 as it is stated has no condition on the text: after the \<open>create\<close> event of
  an empty note the entry exists and its text \<^verbatim>\<open>""\<close> includes the query \<^verbatim>\<open>""\<close>, yet
  \<open>contains\<close> answers \<open>False\<close>. For a query that is not empty the two statements
  agree, an empty text containing no such query.
\<close>

theorem contains_empty_text_empty_query:
  "textByPath (applyEvent toLowerCase_latin (Create \<lparr>path = str ''empty.md'', extension = str ''md'', stat_size = Some 0\<rparr> (Inr []))
       newContentIndex) (str ''empty.md'') = Some []
   \<and> str_includes [] []
   \<and> contains (applyEvent toLowerCase_latin (Create \<lparr>path = str ''empty.md'', extension = str ''md'', stat_size = Some 0\<rparr> (Inr []))
       newContentIndex) (str ''empty.md'') [] = False"
  by (simp add: indexFileIfEligible_def str_md_allowed maxFileBytes_def toLowerCase_latin_def newContentIndex_def contains_def)

subsection \<open>A rejected read\<close>

lemma buildLoop_all:
  "buildLoop toLowerCase cachedRead files s =
     (foldl (\<lambda>s g. fst (indexFileIfEligible toLowerCase cachedRead g s)) s files, None)"
proof (induction files arbitrary: s)
  case Nil
  show ?case by simp
next
  case (Cons f fs)
  obtain s' where "indexFileIfEligible toLowerCase cachedRead f s = (s', None)"
    using indexFileIfEligible_raises_nothing [of toLowerCase cachedRead f s]
    by (metis prod.collapse)
  then show ?case
    using Cons.IH by simp
qed

lemma foldl_index_building:
  "building (foldl (\<lambda>s g. fst (indexFileIfEligible toLowerCase cachedRead g s)) s files) = building s"
  by (induction files arbitrary: s) (simp_all add: indexFileIfEligible_building)

lemma foldl_index_flag:
  "foldl (\<lambda>s g. fst (indexFileIfEligible toLowerCase cachedRead g s)) (s\<lparr>building := b\<rparr>) files
     = (foldl (\<lambda>s g. fst (indexFileIfEligible toLowerCase cachedRead g s)) s files)\<lparr>building := b\<rparr>"
proof (induction files arbitrary: s)
  case Nil
  show ?case by simp
next
  case (Cons f fs)
  have "fst (indexFileIfEligible toLowerCase cachedRead f (s\<lparr>building := b\<rparr>))
          = (fst (indexFileIfEligible toLowerCase cachedRead f s))\<lparr>building := b\<rparr>"
    by (simp add: indexFileIfEligible_def split: option.splits sum.splits)
  then show ?case using Cons.IH by simp
qed

lemma buildInitialIndex_all:
  assumes "\<not> building s"
  shows "buildInitialIndex toLowerCase cachedRead files s =
     (foldl (\<lambda>s g. fst (indexFileIfEligible toLowerCase cachedRead g s)) s files, None)"
proof -
  have "(foldl (\<lambda>s g. fst (indexFileIfEligible toLowerCase cachedRead g s)) s files)\<lparr>building := False\<rparr>
          = foldl (\<lambda>s g. fst (indexFileIfEligible toLowerCase cachedRead g s)) s files"
    using assms foldl_index_building [of toLowerCase cachedRead s files] by simp
  with assms show ?thesis
    by (simp add: buildInitialIndex_def buildLoop_all foldl_index_flag)
qed

lemma foldl_index_untouched:
  "p \<notin> path ` set files \<Longrightarrow>
     textByPath (foldl (\<lambda>s g. fst (indexFileIfEligible toLowerCase cachedRead g s)) s files) p = textByPath s p"
  by (induction files arbitrary: s) (simp_all add: indexFileIfEligible_other_path)

lemma foldl_index_entry:
  assumes "g \<in> set files" and "distinct (map path files)"
  shows "textByPath (foldl (\<lambda>s g. fst (indexFileIfEligible toLowerCase cachedRead g s)) s files) (path g) =
     (case cachedRead g of
        Inr raw \<Rightarrow> if foundIndexable g (cachedRead g) then Some (toLowerCase raw) else None
      | Inl e \<Rightarrow> None)"
  using assms
proof (induction files arbitrary: s)
  case Nil
  then show ?case by simp
next
  case (Cons f fs)
  show ?case
  proof (cases "g \<in> set fs")
    case True
    with Cons show ?thesis by simp
  next
    case False
    with Cons.prems have g: "g = f" and nf: "path f \<notin> path ` set fs"
      by auto
    show ?thesis
      unfolding g using nf by (simp add: foldl_index_untouched indexFileIfEligible_own_path)
  qed
qed

text \<open>
  Claim C6. When the read of a file is rejected, \<open>indexFileIfEligible\<close> raises no error
  to its caller and leaves no entry for the path of the file (an existing one is
  removed), the other entries unchanged. In a full build (no build running before) the
  failure does not stop the loop: the build raises nothing, and the files after the
  failing one are processed as they would be on their own, so that (the paths of the
  catalog being distinct) each of them has, after the build, exactly the entry that its
  own extension, size and read give.
\<close>

theorem read_failure_is_swallowed:
  assumes "cachedRead f = Inl e"
  shows "snd (indexFileIfEligible toLowerCase cachedRead f s) = None
     \<and> textByPath (fst (indexFileIfEligible toLowerCase cachedRead f s)) (path f) = None
     \<and> (\<forall>p. p \<noteq> path f \<longrightarrow>
           textByPath (fst (indexFileIfEligible toLowerCase cachedRead f s)) p = textByPath s p)
     \<and> (\<not> building s \<longrightarrow>
          buildInitialIndex toLowerCase cachedRead (before @ f # after) s =
            (foldl (\<lambda>s g. fst (indexFileIfEligible toLowerCase cachedRead g s))
               (fst (indexFileIfEligible toLowerCase cachedRead f
                  (foldl (\<lambda>s g. fst (indexFileIfEligible toLowerCase cachedRead g s)) s before)))
               after,
             None))
     \<and> (\<not> building s \<and> distinct (map path (before @ f # after)) \<longrightarrow>
          (\<forall>g \<in> set after.
             textByPath (fst (buildInitialIndex toLowerCase cachedRead (before @ f # after) s)) (path g) =
               (case cachedRead g of
                  Inr raw \<Rightarrow> if foundIndexable g (cachedRead g) then Some (toLowerCase raw) else None
                | Inl e \<Rightarrow> None)))"
proof -
  have own: "textByPath (fst (indexFileIfEligible toLowerCase cachedRead f s)) (path f) = None"
    using assms by (simp add: indexFileIfEligible_own_path)
  have entry: "textByPath (fst (buildInitialIndex toLowerCase cachedRead (before @ f # after) s)) (path g) =
               (case cachedRead g of
                  Inr raw \<Rightarrow> if foundIndexable g (cachedRead g) then Some (toLowerCase raw) else None
                | Inl e \<Rightarrow> None)"
    if "\<not> building s" and "distinct (map path (before @ f # after))" and "g \<in> set after" for g
  proof -
    from that(3) have "g \<in> set (before @ f # after)" by simp
    from foldl_index_entry [OF this that(2)] that(1) show ?thesis
      by (simp add: buildInitialIndex_all)
  qed
  show ?thesis
    using own entry
    by (simp add: indexFileIfEligible_raises_nothing indexFileIfEligible_other_path
        buildInitialIndex_all)
qed

text \<open>
  The theorem at a catalog \<^verbatim>\<open>a.md\<close>, \<^verbatim>\<open>b.md\<close>, \<^verbatim>\<open>c.md\<close> where the read of \<^verbatim>\<open>b.md\<close> is
  rejected and the index holds a stale entry for it: the build raises nothing, indexes
  \<^verbatim>\<open>c.md\<close> and drops the entry of \<^verbatim>\<open>b.md\<close>.
\<close>

theorem read_failure_is_swallowed_witness:
  "(\<lambda>g. if path g = str ''b.md'' then Inl ReadFailed else Inr (str ''Text''))
      \<lparr>path = str ''b.md'', extension = str ''md'', stat_size = Some 4\<rparr> = Inl ReadFailed
   \<and> snd (buildInitialIndex toLowerCase_latin (\<lambda>g. if path g = str ''b.md'' then Inl ReadFailed else Inr (str ''Text''))
        ([\<lparr>path = str ''a.md'', extension = str ''md'', stat_size = Some 4\<rparr>]
         @ \<lparr>path = str ''b.md'', extension = str ''md'', stat_size = Some 4\<rparr>
         # [\<lparr>path = str ''c.md'', extension = str ''md'', stat_size = Some 4\<rparr>])
        \<lparr>textByPath = [str ''b.md'' \<mapsto> str ''stale''], building = False\<rparr>) = None
   \<and> textByPath (fst (buildInitialIndex toLowerCase_latin (\<lambda>g. if path g = str ''b.md'' then Inl ReadFailed else Inr (str ''Text''))
        ([\<lparr>path = str ''a.md'', extension = str ''md'', stat_size = Some 4\<rparr>]
         @ \<lparr>path = str ''b.md'', extension = str ''md'', stat_size = Some 4\<rparr>
         # [\<lparr>path = str ''c.md'', extension = str ''md'', stat_size = Some 4\<rparr>])
        \<lparr>textByPath = [str ''b.md'' \<mapsto> str ''stale''], building = False\<rparr>)) (str ''c.md'')
      = Some (str ''text'')
   \<and> textByPath (fst (buildInitialIndex toLowerCase_latin (\<lambda>g. if path g = str ''b.md'' then Inl ReadFailed else Inr (str ''Text''))
        ([\<lparr>path = str ''a.md'', extension = str ''md'', stat_size = Some 4\<rparr>]
         @ \<lparr>path = str ''b.md'', extension = str ''md'', stat_size = Some 4\<rparr>
         # [\<lparr>path = str ''c.md'', extension = str ''md'', stat_size = Some 4\<rparr>])
        \<lparr>textByPath = [str ''b.md'' \<mapsto> str ''stale''], building = False\<rparr>)) (str ''b.md'')
      = None"
proof -
  let ?rd = "\<lambda>g. if path g = str ''b.md'' then Inl ReadFailed else Inr (str ''Text'')"
  let ?fa = "\<lparr>path = str ''a.md'', extension = str ''md'', stat_size = Some 4\<rparr>"
  let ?fb = "\<lparr>path = str ''b.md'', extension = str ''md'', stat_size = Some 4\<rparr>"
  let ?fc = "\<lparr>path = str ''c.md'', extension = str ''md'', stat_size = Some 4\<rparr>"
  let ?s = "\<lparr>textByPath = [str ''b.md'' \<mapsto> str ''stale''], building = False\<rparr>"
  have hyp: "?rd ?fb = Inl ReadFailed" by simp
  have nb: "\<not> building ?s" by simp
  have dist: "distinct (map path ([?fa] @ ?fb # [?fc]))" by (simp add: str_def)
  have low: "toLowerCase_latin (str ''Text'') = str ''text''"
    by (simp add: toLowerCase_latin_def toLowerUnit_def str_def)
  have found: "foundIndexable ?fc (Inr (str ''Text''))"
    by (simp add: foundIndexable_def str_md_allowed maxFileBytes_def)
  have cb: "str ''c.md'' \<noteq> str ''b.md''" by (simp add: str_def)
  note T = read_failure_is_swallowed [of ?rd ?fb ReadFailed toLowerCase_latin ?s "[?fa]" "[?fc]", OF hyp]
  note D = T [THEN conjunct2, THEN conjunct2, THEN conjunct2, THEN conjunct1, rule_format, OF nb]
  note E = T [THEN conjunct2, THEN conjunct2, THEN conjunct2, THEN conjunct2, rule_format,
      OF conjI [OF nb dist]]
  have "textByPath (fst (buildInitialIndex toLowerCase_latin ?rd ([?fa] @ ?fb # [?fc]) ?s)) (path ?fc) =
               (case ?rd ?fc of
                  Inr raw \<Rightarrow> if foundIndexable ?fc (?rd ?fc) then Some (toLowerCase_latin raw) else None
                | Inl e \<Rightarrow> None)"
    by (rule E) simp
  then have c: "textByPath (fst (buildInitialIndex toLowerCase_latin ?rd ([?fa] @ ?fb # [?fc]) ?s)) (str ''c.md'')
      = Some (str ''text'')"
    using cb found by (simp add: low)
  have b: "textByPath (fst (buildInitialIndex toLowerCase_latin ?rd ([?fa] @ ?fb # [?fc]) ?s)) (str ''b.md'') = None"
    unfolding D using cb
    by (simp add: indexFileIfEligible_def str_md_allowed maxFileBytes_def)
  have e: "snd (buildInitialIndex toLowerCase_latin ?rd ([?fa] @ ?fb # [?fc]) ?s) = None"
    unfolding D by simp
  show ?thesis
    using hyp e c b by (intro conjI)
qed


subsection \<open>One build at a time\<close>

lemma applyEvent_building: "building (applyEvent toLowerCase e s) = building s"
  by (cases e) (simp_all add: indexFileIfEligible_building remove_file_def rename_def split: option.splits)

lemma singleFlight_step: "singleFlight rt \<Longrightarrow> singleFlight (step toLowerCase a rt)"
proof (cases a)
  case (CallBuild files)
  assume "singleFlight rt"
  with CallBuild show ?thesis by (auto simp: singleFlight_def)
next
  case (BuildStep k r)
  assume inv: "singleFlight rt"
  show ?thesis
  proof (cases "k < length (builds rt)")
    case False
    with inv BuildStep show ?thesis by simp
  next
    case True
    with inv obtain b where b: "builds rt = [b]" and k: "k = 0"
      by (cases "builds rt") (auto simp: singleFlight_def)
    show ?thesis
    proof (cases b)
      case Nil
      with b k BuildStep inv show ?thesis by (simp add: singleFlight_def)
    next
      case (Cons f fs)
      obtain s' where "indexFileIfEligible toLowerCase (\<lambda>_. r) f (contentIndex rt) = (s', None)"
        and "building s' = building (contentIndex rt)"
        using indexFileIfEligible_raises_nothing [of toLowerCase "\<lambda>_. r" f "contentIndex rt"]
          indexFileIfEligible_building [of toLowerCase "\<lambda>_. r" f "contentIndex rt"]
        by (metis prod.collapse)
      with Cons b k BuildStep inv show ?thesis by (simp add: singleFlight_def)
    qed
  qed
next
  case (Dispatch e)
  assume "singleFlight rt"
  with Dispatch show ?thesis by (simp add: singleFlight_def applyEvent_building)
qed

lemma singleFlight_run: "singleFlight rt \<Longrightarrow> singleFlight (run toLowerCase acts rt)"
  unfolding run_def
  by (induction acts arbitrary: rt) (simp_all add: singleFlight_step)

lemma singleFlight_new: "singleFlight newRuntime"
  by (simp add: singleFlight_def newRuntime_def newContentIndex_def)

text \<open>
  Claim C5. In every state the runtime reaches from its start by calls of
  \<open>buildInitialIndex\<close>, steps of running builds and vault events, in any order, at most
  one build is running, and the flag is set exactly while one runs. While a build is
  running (the flag is set), a further call changes nothing: the index map is unchanged
  and no second build is started or queued.
\<close>

theorem second_build_is_dropped:
  "singleFlight (run toLowerCase acts newRuntime)
   \<and> length (builds (run toLowerCase acts newRuntime)) \<le> 1
   \<and> (builds (run toLowerCase acts newRuntime) \<noteq> [] \<longrightarrow>
        step toLowerCase (CallBuild files) (run toLowerCase acts newRuntime) = run toLowerCase acts newRuntime)
   \<and> (building (contentIndex rt) \<longrightarrow> step toLowerCase (CallBuild files) rt = rt)"
proof -
  have inv: "singleFlight (run toLowerCase acts newRuntime)"
    by (rule singleFlight_run [OF singleFlight_new])
  then show ?thesis
    by (simp add: singleFlight_def)
qed

text \<open>
  The theorem after a call with the catalog \<^verbatim>\<open>a.md\<close>, \<^verbatim>\<open>b.md\<close> and one step of that
  build: \<^verbatim>\<open>b.md\<close> is still to visit, and a second call leaves the state as it is.
\<close>

theorem second_build_is_dropped_witness:
  "builds (run toLowerCase_latin [CallBuild [\<lparr>path = str ''a.md'', extension = str ''md'', stat_size = Some 4\<rparr>,
                           \<lparr>path = str ''b.md'', extension = str ''md'', stat_size = Some 4\<rparr>],
                BuildStep 0 (Inr (str ''Text''))] newRuntime)
     = [[\<lparr>path = str ''b.md'', extension = str ''md'', stat_size = Some 4\<rparr>]]
   \<and> building (contentIndex (run toLowerCase_latin [CallBuild [\<lparr>path = str ''a.md'', extension = str ''md'', stat_size = Some 4\<rparr>,
                           \<lparr>path = str ''b.md'', extension = str ''md'', stat_size = Some 4\<rparr>],
                BuildStep 0 (Inr (str ''Text''))] newRuntime))
   \<and> step toLowerCase_latin (CallBuild [\<lparr>path = str ''c.md'', extension = str ''md'', stat_size = Some 4\<rparr>])
        (run toLowerCase_latin [CallBuild [\<lparr>path = str ''a.md'', extension = str ''md'', stat_size = Some 4\<rparr>,
                           \<lparr>path = str ''b.md'', extension = str ''md'', stat_size = Some 4\<rparr>],
                BuildStep 0 (Inr (str ''Text''))] newRuntime)
     = run toLowerCase_latin [CallBuild [\<lparr>path = str ''a.md'', extension = str ''md'', stat_size = Some 4\<rparr>,
                           \<lparr>path = str ''b.md'', extension = str ''md'', stat_size = Some 4\<rparr>],
                BuildStep 0 (Inr (str ''Text''))] newRuntime"
proof -
  let ?fa = "\<lparr>path = str ''a.md'', extension = str ''md'', stat_size = Some 4\<rparr>"
  let ?fb = "\<lparr>path = str ''b.md'', extension = str ''md'', stat_size = Some 4\<rparr>"
  let ?fc = "\<lparr>path = str ''c.md'', extension = str ''md'', stat_size = Some 4\<rparr>"
  let ?acts = "[CallBuild [?fa, ?fb], BuildStep 0 (Inr (str ''Text''))]"
  have bs: "builds (run toLowerCase_latin ?acts newRuntime) = [[?fb]]"
    by (simp add: run_def newRuntime_def newContentIndex_def indexFileIfEligible_def
        str_md_allowed maxFileBytes_def)
  have fl: "building (contentIndex (run toLowerCase_latin ?acts newRuntime))"
    by (simp add: run_def newRuntime_def newContentIndex_def indexFileIfEligible_def
        str_md_allowed maxFileBytes_def)
  have ne: "builds (run toLowerCase_latin ?acts newRuntime) \<noteq> []"
    by (simp add: bs)
  note T = second_build_is_dropped [of toLowerCase_latin ?acts "[?fc]" newRuntime]
  note D = T [THEN conjunct2, THEN conjunct2, THEN conjunct1, rule_format, OF ne]
  show ?thesis
    using bs fl D by (intro conjI)
qed

subsection \<open>Ranking\<close>

lemma insertBy_insort_key:
  assumes "\<And>x y. (cmp x y \<le> 0) = (key x \<le> key y)"
  shows "insertBy cmp x ys = insort_key key x ys"
  by (induction ys) (simp_all add: assms)

lemma sortBy_sort_key:
  assumes "\<And>x y. (cmp x y \<le> 0) = (key x \<le> key y)"
  shows "sortBy cmp xs = sort_key key xs"
proof -
  have "insertBy cmp = insort_key key"
    by (intro ext) (rule insertBy_insort_key [OF assms])
  then show ?thesis
    by (simp add: sortBy_def sort_key_def)
qed

lemma compareResults_rankKey:
  assumes "\<And>a b. (localeCompare a b \<le> 0) = (k a \<le> k b)"
  shows "(compareResults localeCompare x y \<le> 0) = (rankKey k x \<le> rankKey k y)"
proof (cases "matchIn x"; cases "matchIn y")
qed (auto simp: compareResults_def rankKey_def less_eq_prod_def less_prod_def assms)

lemma set_sortBy: "set (sortBy cmp xs) = set xs"
proof -
  have ins: "set (insertBy cmp x ys) = insert x (set ys)" for x ys
    by (induction ys) auto
  show ?thesis
    unfolding sortBy_def by (induction xs) (simp_all add: ins)
qed

lemma length_sortBy: "length (sortBy cmp xs) = length xs"
proof -
  have ins: "length (insertBy cmp x ys) = Suc (length ys)" for x ys
    by (induction ys) auto
  show ?thesis
    unfolding sortBy_def by (induction xs) (simp_all add: ins)
qed

lemma localeCompare_codeunit_key: "(localeCompare_codeunit a b \<le> 0) = (id a \<le> id b)"
  by (auto simp: localeCompare_codeunit_def)

lemma localeCompare_collation_key:
  "(localeCompare_collation a b \<le> 0) = (collationKey a \<le> collationKey b)"
  by (auto simp: localeCompare_collation_def)

text \<open>
  Claim C3, as the code has it. The fifth criterion is decided by the host's
  \<^verbatim>\<open>localeCompare\<close>. For every host comparison that compares sort keys of the paths
  (\<open>localeCompare a b \<le> 0\<close> exactly when the key of \<open>a\<close> is at most the key of
  \<open>b\<close>, as a collation does), and for every candidate list, what the code returns is
  the list sorted (stably) by the five keys: active first, open first, path match before
  content match, shorter path first, then the host's order of the paths; cut to its first
  200 elements. So \<open>getSuggestions\<close> returns at most 200 results, the first 200 of the
  candidates in this order.
\<close>

theorem ranking_is_sort_by_five_keys:
  assumes "\<forall>a b. (localeCompare a b \<le> 0) = (k a \<le> k b)"
  shows "take 200 (sortBy (compareResults localeCompare) rs) = rank_spec k rs
     \<and> getSuggestions toLowerCase localeCompare m query =
         (if toLowerCase (trim query) = [] then []
          else rank_spec k (candidates toLowerCase m (toLowerCase (trim query))))
     \<and> length (getSuggestions toLowerCase localeCompare m query) \<le> 200
     \<and> length (rank_spec k rs) = min 200 (length rs)"
proof -
  have s: "sortBy (compareResults localeCompare) xs = sort_key (rankKey k) xs" for xs
    by (rule sortBy_sort_key) (rule compareResults_rankKey, simp add: assms)
  show ?thesis
    by (simp add: getSuggestions_def rank_spec_def s Let_def)
qed

text \<open>
  The theorem for a host that collates alphabetically, at four files that all match the
  query by path: the active one first, then the open one, then the shorter path
  \<^verbatim>\<open>bb.md\<close> before \<^verbatim>\<open>a/x.md\<close>.
\<close>

theorem ranking_is_sort_by_five_keys_witness:
  "(\<forall>a b. (localeCompare_collation a b \<le> 0) = (collationKey a \<le> collationKey b))
   \<and> getSuggestions toLowerCase_latin localeCompare_collation
        \<lparr>allFiles = [\<lparr>path = str ''a/x.md'', extension = str ''md'', stat_size = Some 1\<rparr>,
                     \<lparr>path = str ''bb.md'', extension = str ''md'', stat_size = Some 1\<rparr>,
                     \<lparr>path = str ''zz.md'', extension = str ''md'', stat_size = Some 1\<rparr>,
                     \<lparr>path = str ''yy.md'', extension = str ''md'', stat_size = Some 1\<rparr>],
         openFilePaths = {str ''zz.md'', str ''yy.md''}, activeFilePath = Some (str ''yy.md''),
         index = newContentIndex\<rparr> (str ''MD'')
      = rank_spec collationKey (candidates toLowerCase_latin
        \<lparr>allFiles = [\<lparr>path = str ''a/x.md'', extension = str ''md'', stat_size = Some 1\<rparr>,
                     \<lparr>path = str ''bb.md'', extension = str ''md'', stat_size = Some 1\<rparr>,
                     \<lparr>path = str ''zz.md'', extension = str ''md'', stat_size = Some 1\<rparr>,
                     \<lparr>path = str ''yy.md'', extension = str ''md'', stat_size = Some 1\<rparr>],
         openFilePaths = {str ''zz.md'', str ''yy.md''}, activeFilePath = Some (str ''yy.md''),
         index = newContentIndex\<rparr> (str ''md''))
   \<and> map (\<lambda>r. path (res_file r)) (getSuggestions toLowerCase_latin localeCompare_collation
        \<lparr>allFiles = [\<lparr>path = str ''a/x.md'', extension = str ''md'', stat_size = Some 1\<rparr>,
                     \<lparr>path = str ''bb.md'', extension = str ''md'', stat_size = Some 1\<rparr>,
                     \<lparr>path = str ''zz.md'', extension = str ''md'', stat_size = Some 1\<rparr>,
                     \<lparr>path = str ''yy.md'', extension = str ''md'', stat_size = Some 1\<rparr>],
         openFilePaths = {str ''zz.md'', str ''yy.md''}, activeFilePath = Some (str ''yy.md''),
         index = newContentIndex\<rparr> (str ''MD''))
      = [str ''yy.md'', str ''zz.md'', str ''bb.md'', str ''a/x.md'']"
proof -
  let ?m = "\<lparr>allFiles = [\<lparr>path = str ''a/x.md'', extension = str ''md'', stat_size = Some 1\<rparr>,
                     \<lparr>path = str ''bb.md'', extension = str ''md'', stat_size = Some 1\<rparr>,
                     \<lparr>path = str ''zz.md'', extension = str ''md'', stat_size = Some 1\<rparr>,
                     \<lparr>path = str ''yy.md'', extension = str ''md'', stat_size = Some 1\<rparr>],
         openFilePaths = {str ''zz.md'', str ''yy.md''}, activeFilePath = Some (str ''yy.md''),
         index = newContentIndex\<rparr>"
  have key: "\<forall>a b. (localeCompare_collation a b \<le> 0) = (collationKey a \<le> collationKey b)"
    by (simp add: localeCompare_collation_key)
  have q: "toLowerCase_latin (trim (str ''MD'')) = str ''md''"
    by (simp add: toLowerCase_latin_def toLowerUnit_def trim_def isWhiteSpace_def str_def)
  have ne: "str ''md'' \<noteq> []"
    by (simp add: str_def)
  note T = ranking_is_sort_by_five_keys [OF key, of _ toLowerCase_latin ?m "str ''MD''"]
  have eq: "getSuggestions toLowerCase_latin localeCompare_collation ?m (str ''MD'')
      = rank_spec collationKey (candidates toLowerCase_latin ?m (str ''md''))"
    using T [THEN conjunct2, THEN conjunct1] ne unfolding q by simp
  have val: "map (\<lambda>r. path (res_file r)) (getSuggestions toLowerCase_latin localeCompare_collation ?m (str ''MD''))
      = [str ''yy.md'', str ''zz.md'', str ''bb.md'', str ''a/x.md'']"
    by (simp add: getSuggestions_def candidates_def suggestion_def sortBy_def compareResults_def
        localeCompare_collation_def collationKey_def toLowerCase_latin_def toLowerUnit_def trim_def
        isWhiteSpace_def str_def newContentIndex_def findSnippet_def Let_def)
  show ?thesis
    using key eq val by (intro conjI)
qed

text \<open>
  Claim C3 as it is stated takes the fifth key to be the lexicographic order of the path
  strings. With a host that collates alphabetically the code puts \<^verbatim>\<open>a.md\<close> before
  \<^verbatim>\<open>B.md\<close>, where the lexicographic order of the code units puts \<^verbatim>\<open>B.md\<close> (66) before
  \<^verbatim>\<open>a.md\<close> (97).
\<close>

theorem ranking_not_code_unit_lexicographic:
  "map (\<lambda>r. path (res_file r)) (getSuggestions toLowerCase_latin localeCompare_collation
        \<lparr>allFiles = [\<lparr>path = str ''B.md'', extension = str ''md'', stat_size = Some 1\<rparr>,
                     \<lparr>path = str ''a.md'', extension = str ''md'', stat_size = Some 1\<rparr>],
         openFilePaths = {}, activeFilePath = None, index = newContentIndex\<rparr> (str ''md''))
     = [str ''a.md'', str ''B.md'']
   \<and> map (\<lambda>r. path (res_file r)) (rank_spec id (candidates toLowerCase_latin
        \<lparr>allFiles = [\<lparr>path = str ''B.md'', extension = str ''md'', stat_size = Some 1\<rparr>,
                     \<lparr>path = str ''a.md'', extension = str ''md'', stat_size = Some 1\<rparr>],
         openFilePaths = {}, activeFilePath = None, index = newContentIndex\<rparr> (str ''md'')))
     = [str ''B.md'', str ''a.md'']
   \<and> str ''B.md'' < str ''a.md''
   \<and> localeCompare_collation (str ''a.md'') (str ''B.md'') < 0"
  by (simp add: getSuggestions_def candidates_def suggestion_def sortBy_def compareResults_def
        localeCompare_collation_def collationKey_def toLowerCase_latin_def toLowerUnit_def trim_def
        isWhiteSpace_def str_def newContentIndex_def findSnippet_def Let_def
        rank_spec_def rankKey_def)

subsection \<open>Content matches\<close>

lemma set_map_filter_Some:
  "set (List.map_filter g xs) = {y. \<exists>x \<in> set xs. g x = Some y}"
  by (induction xs) (auto split: option.splits)

lemma set_candidates:
  "set (candidates toLowerCase m q) = {r. \<exists>f \<in> set (allFiles m). suggestion toLowerCase m q f = Some r}"
  by (simp add: candidates_def set_map_filter_Some)

lemma suggestion_content:
  assumes "textByPath (index m) (path d) = Some t"
    and "sublist q t" and "3 \<le> length q"
    and "\<not> str_includes (toLowerCase (path d)) q"
  shows "\<exists>r. suggestion toLowerCase m q d = Some r \<and> res_file r = d \<and> matchIn r = InContent
           \<and> snippet r \<noteq> None"
proof -
  from assms(2) obtain i where i: "indexOf t q = Some i"
    using indexOf_None_sublist [of t q] by (cases "indexOf t q") auto
  from assms(2,3) have "t \<noteq> []"
    by auto
  with assms(1) i have "findSnippet (index m) (path d) q = Some (snippetAround t i (length q), i)"
    by (simp add: findSnippet_found)
  with assms(3,4) show ?thesis
    by (simp add: suggestion_def Let_def)
qed

text \<open>
  Claim C2, as the code has it. The query is normalised first: trimmed, then lower-cased;
  the length that opens the content search and the string that is searched for are those
  of the normalised query. For a document \<open>d\<close> of the catalog that has an entry, and a
  query \<open>Q\<close> whose normalised form has at least 3 code units, occurs in the stored text
  of \<open>d\<close> and does not occur in the lower-cased path of \<open>d\<close>: the candidates of the
  query hold a result for \<open>d\<close> that is a content match and carries a snippet;
  \<open>getSuggestions\<close> returns the first 200 of the ranked candidates, so it returns that
  result whenever there are at most 200 candidates. (A substring \<open>Q\<close> of the stored
  text that has no white space at its ends and that lower-casing leaves unchanged is its
  own normalised form.)
\<close>

theorem content_match_found:
  assumes "d \<in> set (allFiles m)"
    and "textByPath (index m) (path d) = Some stored"
    and "sublist (toLowerCase (trim Q)) stored"
    and "3 \<le> length (toLowerCase (trim Q))"
    and "\<not> str_includes (toLowerCase (path d)) (toLowerCase (trim Q))"
  shows "(\<exists>r \<in> set (candidates toLowerCase m (toLowerCase (trim Q))).
            res_file r = d \<and> matchIn r = InContent \<and> snippet r \<noteq> None)
     \<and> getSuggestions toLowerCase localeCompare m Q =
          take 200 (sortBy (compareResults localeCompare)
            (candidates toLowerCase m (toLowerCase (trim Q))))
     \<and> (length (candidates toLowerCase m (toLowerCase (trim Q))) \<le> 200 \<longrightarrow>
          (\<exists>r \<in> set (getSuggestions toLowerCase localeCompare m Q).
             res_file r = d \<and> matchIn r = InContent \<and> snippet r \<noteq> None))"
proof -
  let ?q = "toLowerCase (trim Q)"
  from assms(4) have ne: "?q \<noteq> []"
    by auto
  from suggestion_content [where toLowerCase = toLowerCase, OF assms(2,3,4,5)]
  obtain r where r: "suggestion toLowerCase m ?q d = Some r" "res_file r = d"
      "matchIn r = InContent" "snippet r \<noteq> None"
    by blast
  from r(1) assms(1) have mem: "r \<in> set (candidates toLowerCase m ?q)"
    by (auto simp: set_candidates)
  have gs: "getSuggestions toLowerCase localeCompare m Q =
          take 200 (sortBy (compareResults localeCompare) (candidates toLowerCase m ?q))"
    using ne by (simp add: getSuggestions_def Let_def)
  have "r \<in> set (getSuggestions toLowerCase localeCompare m Q)"
    if "length (candidates toLowerCase m ?q) \<le> 200"
  proof -
    from that have "take 200 (sortBy (compareResults localeCompare) (candidates toLowerCase m ?q))
        = sortBy (compareResults localeCompare) (candidates toLowerCase m ?q)"
      by (simp add: length_sortBy)
    with mem show ?thesis
      by (simp add: gs set_sortBy)
  qed
  with mem r(2,3,4) gs show ?thesis
    by blast
qed

text \<open>
  The theorem at a note \<^verbatim>\<open>n.md\<close> with the text \<^verbatim>\<open>"Say Hello World"\<close> and the query
  \<^verbatim>\<open>" Hello "\<close>, whose normalised form is \<^verbatim>\<open>"hello"\<close>.
\<close>

theorem content_match_found_witness:
  "\<lparr>path = str ''n.md'', extension = str ''md'', stat_size = Some 15\<rparr>
      \<in> set [\<lparr>path = str ''n.md'', extension = str ''md'', stat_size = Some 15\<rparr>]
   \<and> textByPath (applyEvent toLowerCase_latin
          (Create \<lparr>path = str ''n.md'', extension = str ''md'', stat_size = Some 15\<rparr>
          (Inr (str ''Say Hello World''))) newContentIndex) (str ''n.md'')
       = Some (str ''say hello world'')
   \<and> toLowerCase_latin (trim (str '' Hello '')) = str ''hello''
   \<and> sublist (str ''hello'') (str ''say hello world'')
   \<and> 3 \<le> length (str ''hello'')
   \<and> \<not> str_includes (toLowerCase_latin (str ''n.md'')) (str ''hello'')
   \<and> (\<exists>r \<in> set (getSuggestions toLowerCase_latin localeCompare_codeunit
          \<lparr>allFiles = [\<lparr>path = str ''n.md'', extension = str ''md'', stat_size = Some 15\<rparr>],
           openFilePaths = {}, activeFilePath = None,
           index = applyEvent toLowerCase_latin
              (Create \<lparr>path = str ''n.md'', extension = str ''md'', stat_size = Some 15\<rparr>
              (Inr (str ''Say Hello World''))) newContentIndex\<rparr> (str '' Hello '')).
         res_file r = \<lparr>path = str ''n.md'', extension = str ''md'', stat_size = Some 15\<rparr>
         \<and> matchIn r = InContent \<and> snippet r = Some (str ''say hello world''))"
proof -
  let ?d = "\<lparr>path = str ''n.md'', extension = str ''md'', stat_size = Some 15\<rparr>"
  let ?ix = "applyEvent toLowerCase_latin (Create ?d (Inr (str ''Say Hello World''))) newContentIndex"
  let ?m = "\<lparr>allFiles = [?d], openFilePaths = {}, activeFilePath = None, index = ?ix\<rparr>"
  have g1: "?d \<in> set [?d]" by simp
  have low: "toLowerCase_latin (str ''Say Hello World'') = str ''say hello world''"
    by (simp add: toLowerCase_latin_def toLowerUnit_def str_def)
  have g2: "textByPath ?ix (str ''n.md'') = Some (str ''say hello world'')"
    by (simp add: indexFileIfEligible_def str_md_allowed maxFileBytes_def low)
  have q: "toLowerCase_latin (trim (str '' Hello '')) = str ''hello''"
    by (simp add: trim_def isWhiteSpace_def toLowerCase_latin_def toLowerUnit_def str_def)
  have g3: "sublist (str ''hello'') (str ''say hello world'')"
    by (simp add: str_includes_sublist [symmetric] str_def)
  have g4: "3 \<le> length (str ''hello'')"
    by (simp add: str_def)
  have g5: "\<not> str_includes (toLowerCase_latin (str ''n.md'')) (str ''hello'')"
    by (simp add: toLowerCase_latin_def toLowerUnit_def str_def)
  have h1: "?d \<in> set (allFiles ?m)" by simp
  have h2: "textByPath (index ?m) (path ?d) = Some (str ''say hello world'')"
    using g2 by simp
  have h3: "sublist (toLowerCase_latin (trim (str '' Hello ''))) (str ''say hello world'')"
    unfolding q by (rule g3)
  have h4: "3 \<le> length (toLowerCase_latin (trim (str '' Hello '')))"
    unfolding q by (rule g4)
  have h5: "\<not> str_includes (toLowerCase_latin (path ?d)) (toLowerCase_latin (trim (str '' Hello '')))"
    unfolding q using g5 by simp
  have small: "length (candidates toLowerCase_latin ?m (toLowerCase_latin (trim (str '' Hello '')))) \<le> 200"
    by (simp add: candidates_def split: option.splits)
  note T = content_match_found [OF h1 h2 h3 h4 h5, of localeCompare_codeunit]
  note R = T [THEN conjunct2, THEN conjunct2, rule_format, OF small]
  have ix: "?ix = \<lparr>textByPath = [str ''n.md'' \<mapsto> str ''say hello world''], building = False\<rparr>"
    by (simp add: indexFileIfEligible_def str_md_allowed maxFileBytes_def low newContentIndex_def)
  have val: "map snippet (getSuggestions toLowerCase_latin localeCompare_codeunit ?m (str '' Hello ''))
      = [Some (str ''say hello world'')]"
    unfolding getSuggestions_def q Let_def ix
    by (simp add: candidates_def suggestion_def sortBy_def Let_def findSnippet_def slice_def
        str_def trim_def isWhiteSpace_def toLowerCase_latin_def toLowerUnit_def)
  from R obtain r where r: "r \<in> set (getSuggestions toLowerCase_latin localeCompare_codeunit ?m (str '' Hello ''))"
      "res_file r = ?d" "matchIn r = InContent"
    by blast
  from r(1) have "snippet r \<in> snippet ` set (getSuggestions toLowerCase_latin localeCompare_codeunit ?m (str '' Hello ''))"
    by (rule imageI)
  then have "snippet r \<in> set (map snippet (getSuggestions toLowerCase_latin localeCompare_codeunit ?m (str '' Hello '')))"
    by (simp only: set_map)
  then have "snippet r = Some (str ''say hello world'')"
    unfolding val by simp
  with r have R': "\<exists>r \<in> set (getSuggestions toLowerCase_latin localeCompare_codeunit ?m (str '' Hello '')).
         res_file r = ?d \<and> matchIn r = InContent \<and> snippet r = Some (str ''say hello world'')"
    by blast
  show ?thesis
    by (rule conjI [OF g1 conjI [OF g2 conjI [OF q conjI [OF g3 conjI [OF g4 conjI [OF g5 R']]]]]])
qed

text \<open>
  The helpers of the second half of the counterexample: a result that every other
  candidate precedes is sorted last, and is cut off when 200 others come before it.
\<close>

lemma insertBy_before_last:
  "cmp x y \<le> 0 \<Longrightarrow> insertBy cmp x (zs @ [y]) = insertBy cmp x zs @ [y]"
  by (induction zs) simp_all

lemma sortBy_snoc_last:
  assumes "\<forall>x \<in> set xs. cmp x y \<le> 0"
  shows "sortBy cmp (xs @ [y]) = sortBy cmp xs @ [y]"
proof -
  have "foldr (insertBy cmp) xs [y] = foldr (insertBy cmp) xs [] @ [y]"
    using assms by (induction xs) (simp_all add: insertBy_before_last)
  then show ?thesis
    by (simp add: sortBy_def)
qed

lemma map_filter_append:
  "List.map_filter g (xs @ ys) = List.map_filter g xs @ List.map_filter g ys"
  by (induction xs) (simp_all split: option.splits)

lemma map_filter_all_Some:
  "(\<forall>x \<in> set xs. g x = Some (h x)) \<Longrightarrow> List.map_filter g xs = map h xs"
  by (induction xs) simp_all

lemma cut_off_by_cap:
  "\<not> (\<exists>r \<in> set (getSuggestions toLowerCase_latin localeCompare_codeunit
        \<lparr>allFiles = map (\<lambda>i. \<lparr>path = str ''abc'' @ replicate i 120, extension = str ''md'', stat_size = Some 3\<rparr>) [0..<200]
                     @ [\<lparr>path = str ''n.md'', extension = str ''md'', stat_size = Some 9\<rparr>],
         openFilePaths = {}, activeFilePath = None,
         index = \<lparr>textByPath = [str ''n.md'' \<mapsto> str ''xx abc yy''], building = False\<rparr>\<rparr> (str ''abc'')).
      res_file r = \<lparr>path = str ''n.md'', extension = str ''md'', stat_size = Some 9\<rparr>)"
proof -
  let ?mk = "\<lambda>i. \<lparr>path = str ''abc'' @ replicate i 120, extension = str ''md'', stat_size = Some 3\<rparr>"
  let ?d = "\<lparr>path = str ''n.md'', extension = str ''md'', stat_size = Some 9\<rparr>"
  let ?m = "\<lparr>allFiles = map ?mk [0..<200] @ [?d], openFilePaths = {}, activeFilePath = None,
         index = \<lparr>textByPath = [str ''n.md'' \<mapsto> str ''xx abc yy''], building = False\<rparr>\<rparr>"
  let ?res = "\<lambda>f. \<lparr>res_file = f, isOpen = False, isActive = False, matchIn = InPath, snippet = None\<rparr>"
  let ?cmp = "compareResults localeCompare_codeunit"
  have q: "toLowerCase_latin (trim (str ''abc'')) = str ''abc''"
    by (simp add: toLowerCase_latin_def toLowerUnit_def trim_def isWhiteSpace_def str_def)
  have low: "toLowerCase_latin (str ''abc'' @ replicate i 120) = str ''abc'' @ replicate i 120" for i
    by (simp add: toLowerCase_latin_def toLowerUnit_def str_def)
  have hit: "suggestion toLowerCase_latin ?m (str ''abc'') (?mk i) = Some (?res (?mk i))" for i
    by (simp add: suggestion_def Let_def low str_includes_sublist)
  obtain dres where dres: "suggestion toLowerCase_latin ?m (str ''abc'') ?d = Some dres" and kind: "matchIn dres = InContent"
    and nopen: "\<not> isOpen dres" "\<not> isActive dres"
    by (simp add: suggestion_def Let_def findSnippet_def toLowerCase_latin_def toLowerUnit_def str_def)
  have cands: "candidates toLowerCase_latin ?m (str ''abc'') = map ?res (map ?mk [0..<200]) @ [dres]"
  proof -
    have "List.map_filter (suggestion toLowerCase_latin ?m (str ''abc'')) (map ?mk [0..<200]) = map ?res (map ?mk [0..<200])"
      by (rule map_filter_all_Some) (auto simp: hit)
    then show ?thesis
      by (simp add: candidates_def map_filter_append dres del: upt_rec_numeral)
  qed
  have before: "\<forall>x \<in> set (map ?res (map ?mk [0..<200])). ?cmp x dres \<le> 0"
    using kind nopen by (auto simp: compareResults_def)
  have sorted: "sortBy ?cmp (map ?res (map ?mk [0..<200]) @ [dres])
      = sortBy ?cmp (map ?res (map ?mk [0..<200])) @ [dres]"
    using before by (rule sortBy_snoc_last)
  have ne: "str ''abc'' \<noteq> []"
    by (simp add: str_def)
  have "getSuggestions toLowerCase_latin localeCompare_codeunit ?m (str ''abc'')
      = take 200 (sortBy ?cmp (candidates toLowerCase_latin ?m (str ''abc'')))"
    using ne by (simp add: getSuggestions_def Let_def q del: upt_rec_numeral)
  also have "\<dots> = take 200 (sortBy ?cmp (map ?res (map ?mk [0..<200])) @ [dres])"
    by (simp only: cands sorted)
  also have "\<dots> = sortBy ?cmp (map ?res (map ?mk [0..<200]))"
    by (simp add: length_sortBy del: upt_rec_numeral)
  finally have "set (getSuggestions toLowerCase_latin localeCompare_codeunit ?m (str ''abc''))
      = set (map ?res (map ?mk [0..<200]))"
    by (simp only: set_sortBy)
  then show ?thesis
    by (auto simp: str_def)
qed

text \<open>
  Claim C2 as it is stated fails in two ways. First, \<^verbatim>\<open>"ab "\<close> is a substring of length 3
  of the stored text \<^verbatim>\<open>"xab cd"\<close> and not of the path, but the query is trimmed to
  \<^verbatim>\<open>"ab"\<close>, which is too short for the content search: no result. Second, with 200
  files that match \<^verbatim>\<open>"abc"\<close> by path, the note whose text contains \<^verbatim>\<open>"abc"\<close> is ranked
  201st and is not returned.
\<close>

theorem content_match_missed:
  "(textByPath (applyEvent toLowerCase_latin (Create \<lparr>path = str ''n.md'', extension = str ''md'', stat_size = Some 6\<rparr>
          (Inr (str ''xAB cd''))) newContentIndex) (str ''n.md'')
       = Some (toLowerCase_latin (str ''xAB cd''))
    \<and> str_includes (toLowerCase_latin (str ''xAB cd'')) (str ''ab '')
    \<and> 3 \<le> length (str ''ab '')
    \<and> \<not> str_includes (toLowerCase_latin (str ''n.md'')) (toLowerCase_latin (str ''ab ''))
    \<and> getSuggestions toLowerCase_latin localeCompare_codeunit
          \<lparr>allFiles = [\<lparr>path = str ''n.md'', extension = str ''md'', stat_size = Some 6\<rparr>],
           openFilePaths = {}, activeFilePath = None,
           index = applyEvent toLowerCase_latin (Create \<lparr>path = str ''n.md'', extension = str ''md'', stat_size = Some 6\<rparr>
              (Inr (str ''xAB cd''))) newContentIndex\<rparr> (str ''ab '') = [])
   \<and> (str_includes (str ''xx abc yy'') (str ''abc'')
    \<and> 3 \<le> length (str ''abc'')
    \<and> \<not> str_includes (toLowerCase_latin (str ''n.md'')) (toLowerCase_latin (str ''abc''))
    \<and> \<not> (\<exists>r \<in> set (getSuggestions toLowerCase_latin localeCompare_codeunit
        \<lparr>allFiles = map (\<lambda>i. \<lparr>path = str ''abc'' @ replicate i 120, extension = str ''md'', stat_size = Some 3\<rparr>) [0..<200]
                     @ [\<lparr>path = str ''n.md'', extension = str ''md'', stat_size = Some 9\<rparr>],
         openFilePaths = {}, activeFilePath = None,
         index = \<lparr>textByPath = [str ''n.md'' \<mapsto> str ''xx abc yy''], building = False\<rparr>\<rparr> (str ''abc'')).
      res_file r = \<lparr>path = str ''n.md'', extension = str ''md'', stat_size = Some 9\<rparr>))"
proof -
  have a1: "textByPath (applyEvent toLowerCase_latin (Create \<lparr>path = str ''n.md'', extension = str ''md'', stat_size = Some 6\<rparr>
          (Inr (str ''xAB cd''))) newContentIndex) (str ''n.md'')
       = Some (toLowerCase_latin (str ''xAB cd''))"
    by (simp add: indexFileIfEligible_def str_md_allowed maxFileBytes_def)
  have a2: "str_includes (toLowerCase_latin (str ''xAB cd'')) (str ''ab '')"
    by (simp add: toLowerCase_latin_def toLowerUnit_def str_def)
  have a3: "3 \<le> length (str ''ab '')"
    by (simp add: str_def)
  have a4: "\<not> str_includes (toLowerCase_latin (str ''n.md'')) (toLowerCase_latin (str ''ab ''))"
    by (simp add: toLowerCase_latin_def toLowerUnit_def str_def)
  have a5: "getSuggestions toLowerCase_latin localeCompare_codeunit
          \<lparr>allFiles = [\<lparr>path = str ''n.md'', extension = str ''md'', stat_size = Some 6\<rparr>],
           openFilePaths = {}, activeFilePath = None,
           index = applyEvent toLowerCase_latin (Create \<lparr>path = str ''n.md'', extension = str ''md'', stat_size = Some 6\<rparr>
              (Inr (str ''xAB cd''))) newContentIndex\<rparr> (str ''ab '') = []"
    by (simp add: getSuggestions_def candidates_def suggestion_def Let_def trim_def isWhiteSpace_def
        toLowerCase_latin_def toLowerUnit_def str_def sortBy_def)
  have b1: "str_includes (str ''xx abc yy'') (str ''abc'')"
    by (simp add: str_def)
  have b2: "3 \<le> length (str ''abc'')"
    by (simp add: str_def)
  have b3: "\<not> str_includes (toLowerCase_latin (str ''n.md'')) (toLowerCase_latin (str ''abc''))"
    by (simp add: toLowerCase_latin_def toLowerUnit_def str_def)
  note A = conjI [OF a1 conjI [OF a2 conjI [OF a3 conjI [OF a4 a5]]]]
  note B = conjI [OF b1 conjI [OF b2 conjI [OF b3 cut_off_by_cap]]]
  show ?thesis
    by (rule conjI [OF A B])
qed

subsection \<open>Entries and the most recent write\<close>

text \<open>
  A call of \<^verbatim>\<open>indexFileIfEligible\<close> whose read settles before anything else happens is
  the call taken as one step.
\<close>

lemma indexFileIfEligible_two_parts:
  "indexFileIfEligible toLowerCase cachedRead file s =
     (case indexFileIfEligible_sync file s of
        (s', True) \<Rightarrow> (indexFileIfEligible_resume toLowerCase file (cachedRead file) s', None)
      | (s', False) \<Rightarrow> (s', None))"
  by (simp add: indexFileIfEligible_def indexFileIfEligible_sync_def indexFileIfEligible_resume_def
      split: sum.splits)

lemma atomic_call_is_two_turns:
  "indexNow (takeTurns toLowerCase [IndexCall file, ReadSettles 0 (cachedRead file)]
       \<lparr>indexNow = s, pendingReads = []\<rparr>)
     = fst (indexFileIfEligible toLowerCase cachedRead file s)"
  by (simp add: takeTurns_def indexFileIfEligible_def indexFileIfEligible_sync_def
      indexFileIfEligible_resume_def split: sum.splits)













end
